theory Spec2Isabelle
  imports Main "HOL-Library.Word" "HOL-Library.Monad_Syntax"
begin

section \<open>The C data model\<close>

text \<open>
  \<open>int\<close> is a 32 bit two's complement integer, read by \<open>sint\<close>; sums and products wrap
  around. Pointers into the heap are addresses, \<open>0\<close> is \<open>NULL\<close>. The objects of type
  \<open>matrix_t\<close> belong to the callers and are named by their own addresses. A function
  of the source is a function of the state that returns the \<open>int\<close> it returns and the
  new state, or \<open>None\<close> where C gives the call no defined behaviour.
\<close>

type_synonym cint = "32 word"

type_synonym addr = nat

type_synonym mptr = nat

text \<open>
  Modelled from the spec: the declaration of \<open>matrix_t\<close>, which is in \<open>matrix.h\<close> and not
  among the sources. Its attributes are \<open>rows\<close>, \<open>columns\<close> and \<open>content\<close>; \<open>matrix.c\<close>
  uses the first two as \<open>int\<close> and the third as \<open>int **\<close>, the array of the rows.
\<close>

record matrix_t =
  rows :: cint
  columns :: cint
  content :: addr

text \<open>
  A cell of a block obtained from \<open>malloc\<close>: nothing written yet, an \<open>int\<close>, or a
  pointer.
\<close>

datatype val = Undef | IntV cint | PtrV addr

text \<open>
  The state of the program and of its environment: the \<open>matrix_t\<close> objects, the live
  blocks of the heap, the next address \<open>malloc\<close> hands out, whether each of the coming
  calls of \<open>malloc\<close> finds memory, the files by name, which names can be opened for
  writing, and the generator behind \<open>rand\<close> (the sequence of each seed, the seed and the
  number of draws since) with the clock \<open>time\<close> reads.
\<close>

record state =
  mats :: "mptr \<Rightarrow> matrix_t"
  heap :: "addr \<Rightarrow> val list option"
  brk :: addr
  avail :: "bool list"
  files :: "string \<Rightarrow> string option"
  writable :: "string \<Rightarrow> bool"
  rand_seq :: "nat \<Rightarrow> nat \<Rightarrow> int"
  rand_seed :: nat
  rand_pos :: nat
  clock :: nat

definition init_state :: state where
  "init_state = \<lparr> mats = (\<lambda>_. \<lparr> rows = 0, columns = 0, content = 0 \<rparr>),
     heap = (\<lambda>_. None), brk = 1, avail = [],
     files = (\<lambda>_. None), writable = (\<lambda>_. True),
     rand_seq = (\<lambda>_ _. 0), rand_seed = 0, rand_pos = 0, clock = 0 \<rparr>"

section \<open>The C library\<close>

text \<open>
  \<open>size_t\<close> has 64 bits, \<open>sizeof(int)\<close> is 4 and \<open>sizeof(int *)\<close> is 8. An \<open>int\<close>
  converted to \<open>size_t\<close> is taken modulo \<open>2 ^ 64\<close>, and so is the product.
\<close>

definition to_size_t :: "cint \<Rightarrow> nat" where
  "to_size_t x = nat (sint x mod 2 ^ 64)"

definition size_mul :: "nat \<Rightarrow> nat \<Rightarrow> nat" where
  "size_mul a b = (a * b) mod 2 ^ 64"

definition PTRDIFF_MAX :: nat where
  "PTRDIFF_MAX = 2 ^ 63 - 1"

text \<open>
  \<open>malloc bytes sz\<close>: a request of \<open>bytes\<close> bytes, for objects of \<open>sz\<close> bytes each. It
  returns \<open>NULL\<close> when the environment has no memory for this call or the request is
  larger than \<open>PTRDIFF_MAX\<close>; otherwise a block at a new address whose cells hold
  nothing yet. What a request of 0 bytes returns is the environment's choice as well.
\<close>

definition malloc :: "nat \<Rightarrow> nat \<Rightarrow> state \<Rightarrow> addr \<times> state" where
  "malloc bytes sz s =
     (case avail s of
        [] \<Rightarrow> (0, s)
      | ok # rest \<Rightarrow>
          if ok \<and> bytes \<le> PTRDIFF_MAX
          then (brk s, s\<lparr> heap := (heap s)(brk s := Some (replicate (bytes div sz) Undef)),
                           brk := Suc (brk s), avail := rest \<rparr>)
          else (0, s\<lparr> avail := rest \<rparr>))"

text \<open>
  \<open>free\<close> of \<open>NULL\<close> does nothing; \<open>free\<close> of an address that is not a live block has no
  defined behaviour (\<open>None\<close>).
\<close>

definition free :: "addr \<Rightarrow> state \<Rightarrow> state option" where
  "free p s =
     (if p = 0 then Some s
      else if heap s p \<noteq> None then Some (s\<lparr> heap := (heap s)(p := None) \<rparr>)
      else None)"

text \<open>
  Reading and writing \<open>p[i]\<close>. The access has no defined behaviour (\<open>None\<close>) when \<open>p\<close> is
  not a live block or \<open>i\<close> is outside it.
\<close>

definition load :: "state \<Rightarrow> addr \<Rightarrow> int \<Rightarrow> val option" where
  "load s p i =
     (case heap s p of
        None \<Rightarrow> None
      | Some blk \<Rightarrow> if 0 \<le> i \<and> i < int (length blk) then Some (blk ! nat i) else None)"

definition store :: "state \<Rightarrow> addr \<Rightarrow> int \<Rightarrow> val \<Rightarrow> state option" where
  "store s p i v =
     (case heap s p of
        None \<Rightarrow> None
      | Some blk \<Rightarrow>
          if 0 \<le> i \<and> i < int (length blk)
          then Some (s\<lparr> heap := (heap s)(p := Some (blk[nat i := v])) \<rparr>)
          else None)"

text \<open>
  A cell read as a pointer or as an \<open>int\<close>: a cell that was never written, or written
  with the other type, gives no defined value.
\<close>

definition load_ptr :: "state \<Rightarrow> addr \<Rightarrow> int \<Rightarrow> addr option" where
  "load_ptr s p i = (case load s p i of Some (PtrV q) \<Rightarrow> Some q | _ \<Rightarrow> None)"

definition load_int :: "state \<Rightarrow> addr \<Rightarrow> int \<Rightarrow> cint option" where
  "load_int s p i = (case load s p i of Some (IntV x) \<Rightarrow> Some x | _ \<Rightarrow> None)"

text \<open>\<open>m->content[i][j]\<close> as a value, and \<open>m->content[i][j] = v\<close>.\<close>

definition get_cell :: "state \<Rightarrow> mptr \<Rightarrow> int \<Rightarrow> int \<Rightarrow> cint option" where
  "get_cell s m i j =
     (case load_ptr s (content (mats s m)) i of
        None \<Rightarrow> None
      | Some r \<Rightarrow> load_int s r j)"

definition set_cell :: "state \<Rightarrow> mptr \<Rightarrow> int \<Rightarrow> int \<Rightarrow> cint \<Rightarrow> state option" where
  "set_cell s m i j v =
     (case load_ptr s (content (mats s m)) i of
        None \<Rightarrow> None
      | Some r \<Rightarrow> store s r j (IntV v))"

section \<open>Loops\<close>

text \<open>
  \<open>for (int i = i0; i < n; i++) body\<close>, for a body that may have no defined behaviour.
  The counter starts at 0 in every loop of the source and the bound is an \<open>int\<close>, so the
  counter is a natural number and the bound \<open>n\<close> is \<open>nat (sint bound)\<close>: no iteration
  for a bound that is 0 or negative. No loop body of the source writes a \<open>matrix_t\<close>
  object, so the bound is read once.
\<close>

function for_loop :: "nat \<Rightarrow> nat \<Rightarrow> (nat \<Rightarrow> 'a \<Rightarrow> 'a option) \<Rightarrow> 'a \<Rightarrow> 'a option" where
  "for_loop i n body s =
     (if i < n
      then (case body i s of None \<Rightarrow> None | Some s' \<Rightarrow> for_loop (Suc i) n body s')
      else Some s)"
  by pat_completeness auto

termination
  by (relation "measure (\<lambda>(i, n, body, s). n - i)") auto

declare for_loop.simps [simp del]

definition bound :: "cint \<Rightarrow> nat" where
  "bound x = nat (sint x)"

section \<open>Allocation and release\<close>

text \<open>
  The inner loop of \<open>matrix_allocate\<close>, run when the block of row \<open>i\<close> could not be
  obtained: \<open>for (j = 0; j < i; j++) free(m->content[j])\<close>.
\<close>

definition free_rows :: "mptr \<Rightarrow> nat \<Rightarrow> state \<Rightarrow> state option" where
  "free_rows m n s =
     for_loop 0 n
       (\<lambda>j t. case load_ptr t (content (mats t m)) (int j) of
                None \<Rightarrow> None
              | Some p \<Rightarrow> free p t) s"

text \<open>
  The loop over the rows of \<open>matrix_allocate\<close>. The result of \<open>malloc\<close> is stored in
  \<open>m->content[i]\<close> before it is compared with \<open>NULL\<close>.
\<close>

function alloc_rows :: "mptr \<Rightarrow> nat \<Rightarrow> nat \<Rightarrow> cint \<Rightarrow> state \<Rightarrow> (cint \<times> state) option" where
  "alloc_rows m i n cols s =
     (if i < n then
        (case malloc (size_mul (to_size_t cols) 4) 4 s of
           (p, s1) \<Rightarrow>
             (case store s1 (content (mats s1 m)) (int i) (PtrV p) of
                None \<Rightarrow> None
              | Some s2 \<Rightarrow>
                  if p = 0 then
                    (case free_rows m i s2 of
                       None \<Rightarrow> None
                     | Some s3 \<Rightarrow>
                         (case free (content (mats s3 m)) s3 of
                            None \<Rightarrow> None
                          | Some s4 \<Rightarrow> Some (- 1, s4)))
                  else alloc_rows m (Suc i) n cols s2))
      else Some (0, s))"
  by pat_completeness auto

termination
  by (relation "measure (\<lambda>(m, i, n, cols, s). n - i)") auto

declare alloc_rows.simps [simp del]

definition matrix_allocate :: "state \<Rightarrow> mptr \<Rightarrow> cint \<Rightarrow> cint \<Rightarrow> (cint \<times> state) option" where
  "matrix_allocate s m r c =
     (let s0 = s\<lparr> mats := (mats s)(m := (mats s m)\<lparr> rows := r, columns := c \<rparr>) \<rparr>;
          (p, s1) = malloc (size_mul (to_size_t r) 8) 8 s0;
          s2 = s1\<lparr> mats := (mats s1)(m := (mats s1 m)\<lparr> content := p \<rparr>) \<rparr>
      in if p = 0 then Some (- 1, s2)
         else alloc_rows m 0 (bound r) c s2)"

definition matrix_free :: "state \<Rightarrow> mptr \<Rightarrow> state option" where
  "matrix_free s m =
     (case (if content (mats s m) \<noteq> 0
            then (case free_rows m (bound (rows (mats s m))) s of
                    None \<Rightarrow> None
                  | Some s1 \<Rightarrow>
                      (case free (content (mats s1 m)) s1 of
                         None \<Rightarrow> None
                       | Some s2 \<Rightarrow>
                           Some (s2\<lparr> mats := (mats s2)(m := (mats s2 m)\<lparr> content := 0 \<rparr>) \<rparr>)))
            else Some s) of
        None \<Rightarrow> None
      | Some s3 \<Rightarrow>
          Some (s3\<lparr> mats := (mats s3)(m := (mats s3 m)\<lparr> rows := 0, columns := 0 \<rparr>) \<rparr>))"

section \<open>Initialisation\<close>

text \<open>The double loop shared by the functions that write every cell of a matrix.\<close>

definition matrix_init_n :: "state \<Rightarrow> mptr \<Rightarrow> cint \<Rightarrow> state option" where
  "matrix_init_n s m n =
     for_loop 0 (bound (rows (mats s m)))
       (\<lambda>i. for_loop 0 (bound (columns (mats s m)))
          (\<lambda>j t. set_cell t m (int i) (int j) n)) s"

definition matrix_init_zeros :: "state \<Rightarrow> mptr \<Rightarrow> state option" where
  "matrix_init_zeros s m = matrix_init_n s m 0"

definition matrix_init_identity :: "state \<Rightarrow> mptr \<Rightarrow> (cint \<times> state) option" where
  "matrix_init_identity s m =
     (if rows (mats s m) \<noteq> columns (mats s m) then Some (- 1, s)
      else
        (case matrix_init_zeros s m of
           None \<Rightarrow> None
         | Some s1 \<Rightarrow>
             (case for_loop 0 (bound (rows (mats s1 m)))
                     (\<lambda>i t. set_cell t m (int i) (int i) 1) s1 of
                None \<Rightarrow> None
              | Some s2 \<Rightarrow> Some (0, s2))))"

text \<open>
  \<open>srand(time(NULL))\<close> restarts the generator from the clock, and \<open>rand()\<close> draws the
  next number of the sequence, which is not negative. \<open>val_max - val_min + 1\<close> is
  computed in \<open>int\<close>: when it does not fit, the expression has no defined value. The
  divisor is positive otherwise, so \<open>%\<close> is \<open>mod\<close>.
\<close>

definition srand :: "nat \<Rightarrow> state \<Rightarrow> state" where
  "srand seed s = s\<lparr> rand_seed := seed, rand_pos := 0 \<rparr>"

definition rand :: "state \<Rightarrow> int \<times> state" where
  "rand s = (\<bar>rand_seq s (rand_seed s) (rand_pos s)\<bar> mod 2 ^ 31, s\<lparr> rand_pos := Suc (rand_pos s) \<rparr>)"

definition rand_cell :: "mptr \<Rightarrow> cint \<Rightarrow> cint \<Rightarrow> nat \<Rightarrow> nat \<Rightarrow> state \<Rightarrow> state option" where
  "rand_cell m val_min val_max i j t =
     (case rand t of
        (r, t1) \<Rightarrow>
          if sint val_max - sint val_min + 1 < 2 ^ 31
          then set_cell t1 m (int i) (int j)
                 (val_min + word_of_int (r mod (sint val_max - sint val_min + 1)))
          else None)"

definition matrix_init_rand :: "state \<Rightarrow> mptr \<Rightarrow> cint \<Rightarrow> cint \<Rightarrow> (cint \<times> state) option" where
  "matrix_init_rand s m val_min val_max =
     (if sint val_min > sint val_max then Some (- 1, s)
      else
        (let s1 = srand (clock s) s in
         case for_loop 0 (bound (rows (mats s1 m)))
                (\<lambda>i. for_loop 0 (bound (columns (mats s1 m)))
                   (rand_cell m val_min val_max i)) s1 of
           None \<Rightarrow> None
         | Some s2 \<Rightarrow> Some (0, s2)))"

section \<open>Comparison\<close>

text \<open>
  The loops of \<open>matrix_equal\<close> leave by \<open>return 0\<close> at the first pair of cells that
  differ: \<open>Some True\<close> is that return, \<open>Some False\<close> the end of the loop.
\<close>

function differ_cols :: "state \<Rightarrow> mptr \<Rightarrow> mptr \<Rightarrow> nat \<Rightarrow> nat \<Rightarrow> nat \<Rightarrow> bool option" where
  "differ_cols s m1 m2 i j n =
     (if j < n then
        (case get_cell s m1 (int i) (int j) of
           None \<Rightarrow> None
         | Some a \<Rightarrow>
             (case get_cell s m2 (int i) (int j) of
                None \<Rightarrow> None
              | Some b \<Rightarrow> if a \<noteq> b then Some True else differ_cols s m1 m2 i (Suc j) n))
      else Some False)"
  by pat_completeness auto

termination
  by (relation "measure (\<lambda>(s, m1, m2, i, j, n). n - j)") auto

declare differ_cols.simps [simp del]

function differ_rows :: "state \<Rightarrow> mptr \<Rightarrow> mptr \<Rightarrow> nat \<Rightarrow> nat \<Rightarrow> nat \<Rightarrow> bool option" where
  "differ_rows s m1 m2 i n c =
     (if i < n then
        (case differ_cols s m1 m2 i 0 c of
           None \<Rightarrow> None
         | Some d \<Rightarrow> if d then Some True else differ_rows s m1 m2 (Suc i) n c)
      else Some False)"
  by pat_completeness auto

termination
  by (relation "measure (\<lambda>(s, m1, m2, i, n, c). n - i)") auto

declare differ_rows.simps [simp del]

definition matrix_equal :: "state \<Rightarrow> mptr \<Rightarrow> mptr \<Rightarrow> cint option" where
  "matrix_equal s m1 m2 =
     (if rows (mats s m1) \<noteq> rows (mats s m2) \<or> columns (mats s m1) \<noteq> columns (mats s m2)
      then Some 0
      else
        (case differ_rows s m1 m2 0 (bound (rows (mats s m1))) (bound (columns (mats s m1))) of
           None \<Rightarrow> None
         | Some d \<Rightarrow> if d then Some 0 else Some 1))"

section \<open>Arithmetic\<close>

definition sum_cell :: "mptr \<Rightarrow> mptr \<Rightarrow> mptr \<Rightarrow> nat \<Rightarrow> nat \<Rightarrow> state \<Rightarrow> state option" where
  "sum_cell m1 m2 result i j t =
     (case get_cell t m1 (int i) (int j) of
        None \<Rightarrow> None
      | Some a \<Rightarrow>
          (case get_cell t m2 (int i) (int j) of
             None \<Rightarrow> None
           | Some b \<Rightarrow> set_cell t result (int i) (int j) (a + b)))"

definition matrix_sum :: "state \<Rightarrow> mptr \<Rightarrow> mptr \<Rightarrow> mptr \<Rightarrow> (cint \<times> state) option" where
  "matrix_sum s m1 m2 result =
     (if rows (mats s m1) \<noteq> rows (mats s m2) \<or> columns (mats s m1) \<noteq> columns (mats s m2)
      then Some (- 1, s)
      else
        (case matrix_allocate s result (rows (mats s m1)) (columns (mats s m1)) of
           None \<Rightarrow> None
         | Some (rc, s1) \<Rightarrow>
             if rc \<noteq> 0 then Some (- 1, s1)
             else
               (case for_loop 0 (bound (rows (mats s1 m1)))
                       (\<lambda>i. for_loop 0 (bound (columns (mats s1 m1)))
                          (sum_cell m1 m2 result i)) s1 of
                  None \<Rightarrow> None
                | Some s2 \<Rightarrow> Some (0, s2))))"

definition scalar_cell :: "mptr \<Rightarrow> cint \<Rightarrow> mptr \<Rightarrow> nat \<Rightarrow> nat \<Rightarrow> state \<Rightarrow> state option" where
  "scalar_cell m scalar result i j t =
     (case get_cell t m (int i) (int j) of
        None \<Rightarrow> None
      | Some a \<Rightarrow> set_cell t result (int i) (int j) (a * scalar))"

definition matrix_scalar_product :: "state \<Rightarrow> mptr \<Rightarrow> cint \<Rightarrow> mptr \<Rightarrow> (cint \<times> state) option" where
  "matrix_scalar_product s m scalar result =
     (case matrix_allocate s result (rows (mats s m)) (columns (mats s m)) of
        None \<Rightarrow> None
      | Some (rc, s1) \<Rightarrow>
          if rc \<noteq> 0 then Some (- 1, s1)
          else
            (case for_loop 0 (bound (rows (mats s1 m)))
                    (\<lambda>i. for_loop 0 (bound (columns (mats s1 m)))
                       (scalar_cell m scalar result i)) s1 of
               None \<Rightarrow> None
             | Some s2 \<Rightarrow> Some (0, s2)))"

definition transpose_cell :: "mptr \<Rightarrow> mptr \<Rightarrow> nat \<Rightarrow> nat \<Rightarrow> state \<Rightarrow> state option" where
  "transpose_cell m result i j t =
     (case get_cell t m (int i) (int j) of
        None \<Rightarrow> None
      | Some a \<Rightarrow> set_cell t result (int j) (int i) a)"

definition matrix_transposition :: "state \<Rightarrow> mptr \<Rightarrow> mptr \<Rightarrow> (cint \<times> state) option" where
  "matrix_transposition s m result =
     (case matrix_allocate s result (columns (mats s m)) (rows (mats s m)) of
        None \<Rightarrow> None
      | Some (rc, s1) \<Rightarrow>
          if rc \<noteq> 0 then Some (- 1, s1)
          else
            (case for_loop 0 (bound (rows (mats s1 m)))
                    (\<lambda>i. for_loop 0 (bound (columns (mats s1 m)))
                       (transpose_cell m result i)) s1 of
               None \<Rightarrow> None
             | Some s2 \<Rightarrow> Some (0, s2)))"

text \<open>
  \<open>result->content[i][j] += m1->content[i][k] * m2->content[k][j]\<close>: the product is
  evaluated, then the cell of the result is read, increased and written.
\<close>

definition product_term :: "mptr \<Rightarrow> mptr \<Rightarrow> mptr \<Rightarrow> nat \<Rightarrow> nat \<Rightarrow> nat \<Rightarrow> state \<Rightarrow> state option" where
  "product_term m1 m2 result i j k t =
     (case get_cell t m1 (int i) (int k) of
        None \<Rightarrow> None
      | Some a \<Rightarrow>
          (case get_cell t m2 (int k) (int j) of
             None \<Rightarrow> None
           | Some b \<Rightarrow>
               (case get_cell t result (int i) (int j) of
                  None \<Rightarrow> None
                | Some acc \<Rightarrow> set_cell t result (int i) (int j) (acc + a * b))))"

definition product_cell :: "mptr \<Rightarrow> mptr \<Rightarrow> mptr \<Rightarrow> nat \<Rightarrow> nat \<Rightarrow> state \<Rightarrow> state option" where
  "product_cell m1 m2 result i j t =
     (case set_cell t result (int i) (int j) 0 of
        None \<Rightarrow> None
      | Some t1 \<Rightarrow>
          for_loop 0 (bound (columns (mats t1 m1))) (product_term m1 m2 result i j) t1)"

definition matrix_product :: "state \<Rightarrow> mptr \<Rightarrow> mptr \<Rightarrow> mptr \<Rightarrow> (cint \<times> state) option" where
  "matrix_product s m1 m2 result =
     (if columns (mats s m1) \<noteq> rows (mats s m2) then Some (- 1, s)
      else
        (case matrix_allocate s result (rows (mats s m1)) (columns (mats s m2)) of
           None \<Rightarrow> None
         | Some (rc, s1) \<Rightarrow>
             if rc \<noteq> 0 then Some (- 1, s1)
             else
               (case for_loop 0 (bound (rows (mats s1 m1)))
                       (\<lambda>i. for_loop 0 (bound (columns (mats s1 m2)))
                          (product_cell m1 m2 result i)) s1 of
                  None \<Rightarrow> None
                | Some s2 \<Rightarrow> Some (0, s2))))"

section \<open>The text format\<close>

definition newline :: char where
  "newline = CHR 0x0A"

definition space :: char where
  "space = CHR 0x20"

definition NUL :: char where
  "NUL = CHR 0x00"

text \<open>What \<open>fprintf\<close> writes for \<open>%d\<close>.\<close>

function show_nat :: "nat \<Rightarrow> string" where
  "show_nat n =
     (if n < 10 then [''0123456789'' ! n]
      else show_nat (n div 10) @ [''0123456789'' ! (n mod 10)])"
  by pat_completeness auto

termination
  by (relation "measure id") auto

declare show_nat.simps [simp del]

definition show_int :: "int \<Rightarrow> string" where
  "show_int x = (if x < 0 then CHR ''-'' # show_nat (nat (- x)) else show_nat (nat x))"

text \<open>
  The text \<open>matrix_dump_file\<close> writes: every cell followed by a space, every row
  followed by a newline.
\<close>

definition dump_cell :: "state \<Rightarrow> mptr \<Rightarrow> nat \<Rightarrow> nat \<Rightarrow> string \<Rightarrow> string option" where
  "dump_cell s m i j out =
     (case get_cell s m (int i) (int j) of
        None \<Rightarrow> None
      | Some v \<Rightarrow> Some (out @ show_int (sint v) @ [space]))"

definition dump_row :: "state \<Rightarrow> mptr \<Rightarrow> nat \<Rightarrow> string \<Rightarrow> string option" where
  "dump_row s m i out =
     (case for_loop 0 (bound (columns (mats s m))) (dump_cell s m i) out of
        None \<Rightarrow> None
      | Some out' \<Rightarrow> Some (out' @ [newline]))"

definition dump_text :: "state \<Rightarrow> mptr \<Rightarrow> string option" where
  "dump_text s m = for_loop 0 (bound (rows (mats s m))) (dump_row s m) []"

definition matrix_dump_file :: "state \<Rightarrow> mptr \<Rightarrow> string \<Rightarrow> (cint \<times> state) option" where
  "matrix_dump_file s m output_file =
     (if \<not> writable s output_file then Some (- 1, s)
      else
        (case dump_text s m of
           None \<Rightarrow> None
         | Some txt \<Rightarrow> Some (0, s\<lparr> files := (files s)(output_file := Some txt) \<rparr>)))"

text \<open>
  \<open>fgets(line, n, file)\<close> on the rest of the file: \<open>NULL\<close> at the end of the file,
  otherwise the characters up to and including the first newline, \<open>n - 1\<close> of them at
  most, and the rest of the file after them.
\<close>

fun read_line :: "nat \<Rightarrow> string \<Rightarrow> string \<times> string" where
  "read_line 0 cs = ([], cs)"
| "read_line (Suc k) [] = ([], [])"
| "read_line (Suc k) (c # cs) =
     (if c = newline then ([c], cs)
      else (case read_line k cs of (l, r) \<Rightarrow> (c # l, r)))"

definition fgets :: "nat \<Rightarrow> string \<Rightarrow> (string \<times> string) option" where
  "fgets n inp = (if inp = [] \<or> n \<le> 1 then None else Some (read_line (n - 1) inp))"

text \<open>The buffer as a C string: it ends before the first NUL.\<close>

definition c_str :: "string \<Rightarrow> string" where
  "c_str buf = takeWhile (\<lambda>c. c \<noteq> NUL) buf"

text \<open>
  \<open>strtok_r(str, " ", &saveptr)\<close>: spaces are skipped; \<open>NULL\<close> when nothing is left,
  otherwise the characters up to the next space, and \<open>saveptr\<close> after that space.
\<close>

definition strtok_r :: "string \<Rightarrow> (string \<times> string) option" where
  "strtok_r str =
     (let s1 = dropWhile (\<lambda>c. c = space) str
      in if s1 = [] then None
         else Some (takeWhile (\<lambda>c. c \<noteq> space) s1, drop 1 (dropWhile (\<lambda>c. c \<noteq> space) s1)))"

lemma strtok_r_shorter: "strtok_r str = Some (tok, rest) \<Longrightarrow> length rest < length str"
proof -
  assume a: "strtok_r str = Some (tok, rest)"
  let ?s1 = "dropWhile (\<lambda>c. c = space) str"
  from a have ne: "?s1 \<noteq> []" and r: "rest = drop 1 (dropWhile (\<lambda>c. c \<noteq> space) ?s1)"
    by (auto simp: strtok_r_def Let_def split: if_splits)
  have "hd ?s1 \<noteq> space" using ne hd_dropWhile [of "\<lambda>c. c = space" str] by simp
  then have e: "dropWhile (\<lambda>c. c \<noteq> space) ?s1 = dropWhile (\<lambda>c. c \<noteq> space) (tl ?s1)"
    using ne by (cases ?s1) auto
  have "length (dropWhile (\<lambda>c. c \<noteq> space) (tl ?s1)) \<le> length (tl ?s1)"
    by (rule length_dropWhile_le)
  then have "length (dropWhile (\<lambda>c. c \<noteq> space) ?s1) \<le> length (tl ?s1)"
    unfolding e .
  moreover have "length (tl ?s1) < length ?s1" using ne by (cases ?s1) auto
  moreover have "length ?s1 \<le> length str" by (simp add: length_dropWhile_le)
  ultimately show ?thesis using r by simp
qed

text \<open>
  \<open>atoi\<close>: white space, an optional sign, then digits. A value that does not fit an
  \<open>int\<close> has no defined result.
\<close>

definition isspace :: "char \<Rightarrow> bool" where
  "isspace c = (c \<in> set [CHR 0x20, CHR 0x09, CHR 0x0A, CHR 0x0B, CHR 0x0C, CHR 0x0D])"

definition isdigit :: "char \<Rightarrow> bool" where
  "isdigit c = (48 \<le> (of_char c :: nat) \<and> (of_char c :: nat) \<le> 57)"

definition atoi :: "string \<Rightarrow> cint option" where
  "atoi str =
     (let s1 = dropWhile isspace str;
          neg = (s1 \<noteq> [] \<and> hd s1 = CHR ''-'');
          s2 = (if s1 \<noteq> [] \<and> (hd s1 = CHR ''-'' \<or> hd s1 = CHR ''+'') then tl s1 else s1);
          v = foldl (\<lambda>a c. 10 * a + (int (of_char c) - 48)) 0 (takeWhile isdigit s2);
          x = (if neg then - v else v)
      in if - (2 ^ 31) \<le> x \<and> x < 2 ^ 31 then Some (word_of_int x) else None)"

text \<open>The token loop of the first pass: \<open>columns++\<close> for every token of the line.\<close>

function count_tokens :: "string \<Rightarrow> cint \<Rightarrow> cint" where
  "count_tokens str cols =
     (case strtok_r str of
        None \<Rightarrow> cols
      | Some (tok, rest) \<Rightarrow> count_tokens rest (cols + 1))"
  by pat_completeness auto

termination
  by (relation "measure (\<lambda>(str, cols). length str)") (auto dest: strtok_r_shorter)

declare count_tokens.simps [simp del]

lemma read_line_rest_le: "length (snd (read_line k cs)) \<le> length cs"
  by (induction k cs rule: read_line.induct) (auto split: prod.splits)

lemma fgets_shorter: "fgets n inp = Some (buf, rest) \<Longrightarrow> length rest < length inp"
proof -
  assume a: "fgets n inp = Some (buf, rest)"
  then have ne: "inp \<noteq> []" and n: "1 < n" and r: "read_line (n - 1) inp = (buf, rest)"
    by (simp_all add: fgets_def split: if_splits)
  from ne obtain c cs where inp: "inp = c # cs" by (cases inp) auto
  from n obtain k where k: "n - 1 = Suc k" by (cases "n - 1") auto
  show ?thesis
  proof (cases "c = newline")
    case True
    with r inp k show ?thesis by simp
  next
    case False
    have "length (snd (read_line k cs)) \<le> length cs" by (rule read_line_rest_le)
    moreover have "rest = snd (read_line k cs)"
      using r False unfolding inp k by (simp split: prod.splits)
    ultimately show ?thesis by (simp add: inp)
  qed
qed

text \<open>The first pass: the numbers of rows and columns.\<close>

function first_pass :: "string \<Rightarrow> cint \<Rightarrow> cint \<Rightarrow> cint \<times> cint" where
  "first_pass inp rws cols =
     (case fgets 1024 inp of
        None \<Rightarrow> (rws, cols)
      | Some (buf, rest) \<Rightarrow>
          (let line = c_str buf
           in if length line = 0 \<or> hd line = newline then first_pass rest rws cols
              else first_pass rest (rws + 1)
                     (if rws = 0 then count_tokens line cols else cols)))"
  by pat_completeness auto

termination
  by (relation "measure (\<lambda>(inp, rws, cols). length inp)") (auto dest: fgets_shorter)

declare first_pass.simps [simp del]

text \<open>
  The token loop of the second pass: a token is converted and stored while
  \<open>col < columns\<close>, and only stepped over afterwards.
\<close>

function read_tokens :: "mptr \<Rightarrow> cint \<Rightarrow> cint \<Rightarrow> cint \<Rightarrow> string \<Rightarrow> state \<Rightarrow> state option" where
  "read_tokens m row col cols str s =
     (case strtok_r str of
        None \<Rightarrow> Some s
      | Some (tok, rest) \<Rightarrow>
          if sint col < sint cols then
            (case atoi tok of
               None \<Rightarrow> None
             | Some v \<Rightarrow>
                 (case set_cell s m (sint row) (sint col) v of
                    None \<Rightarrow> None
                  | Some s1 \<Rightarrow> read_tokens m row (col + 1) cols rest s1))
          else read_tokens m row col cols rest s)"
  by pat_completeness auto

termination
  by (relation "measure (\<lambda>(m, row, col, cols, str, s). length str)") (auto dest: strtok_r_shorter)

declare read_tokens.simps [simp del]

function second_pass :: "mptr \<Rightarrow> cint \<Rightarrow> string \<Rightarrow> cint \<Rightarrow> state \<Rightarrow> state option" where
  "second_pass m cols inp row s =
     (case fgets 1024 inp of
        None \<Rightarrow> Some s
      | Some (buf, rest) \<Rightarrow>
          (let line = c_str buf
           in if length line = 0 \<or> hd line = newline then second_pass m cols rest row s
              else
                (case read_tokens m row 0 cols line s of
                   None \<Rightarrow> None
                 | Some s1 \<Rightarrow> second_pass m cols rest (row + 1) s1)))"
  by pat_completeness auto

termination
  by (relation "measure (\<lambda>(m, cols, inp, row, s). length inp)") (auto dest: fgets_shorter)

declare second_pass.simps [simp del]

definition matrix_allocate_and_init_file :: "state \<Rightarrow> mptr \<Rightarrow> string \<Rightarrow> (cint \<times> state) option" where
  "matrix_allocate_and_init_file s m input_file =
     (case files s input_file of
        None \<Rightarrow> Some (- 1, s)
      | Some txt \<Rightarrow>
          (case first_pass txt 0 0 of
             (rws, cols) \<Rightarrow>
               (case matrix_allocate s m rws cols of
                  None \<Rightarrow> None
                | Some (rc, s1) \<Rightarrow>
                    if rc \<noteq> 0 then Some (- 1, s1)
                    else
                      (case second_pass m cols txt 0 s1 of
                         None \<Rightarrow> None
                       | Some s2 \<Rightarrow> Some (0, s2)))))"

section \<open>The heap before and after an allocation\<close>

text \<open>
  \<open>heap_ok s\<close>: every live block is at an address that is not \<open>NULL\<close> and is below
  the next address \<open>malloc\<close> hands out.
\<close>

definition heap_ok :: "state \<Rightarrow> bool" where
  "heap_ok s = (0 < brk s \<and> (\<forall>a. heap s a \<noteq> None \<longrightarrow> 0 < a \<and> a < brk s))"

text \<open>\<open>mem n s\<close>: the coming \<open>n\<close> calls of \<open>malloc\<close> find memory.\<close>

definition mem :: "nat \<Rightarrow> state \<Rightarrow> bool" where
  "mem n s = (n \<le> length (avail s) \<and> list_all (\<lambda>b. b) (take n (avail s)))"

text \<open>
  The numbers of cells of the blocks \<open>matrix_allocate\<close> asks for:
  \<open>rows * sizeof(int *)\<close> bytes of pointers and \<open>columns * sizeof(int)\<close> bytes of
  \<open>int\<close>s.
\<close>

definition ptr_cells :: "cint \<Rightarrow> nat" where
  "ptr_cells r = size_mul (to_size_t r) 8 div 8"

definition row_cells :: "cint \<Rightarrow> nat" where
  "row_cells c = size_mul (to_size_t c) 4 div 4"

text \<open>
  The state of \<open>matrix_allocate s m r c\<close> once the array of row pointers and the first
  \<open>i\<close> rows have been obtained: the array is at the old \<open>brk\<close>, the rows follow it,
  and \<open>i + 1\<close> calls of \<open>malloc\<close> have been made.
\<close>

definition alloc_state :: "state \<Rightarrow> mptr \<Rightarrow> cint \<Rightarrow> cint \<Rightarrow> nat \<Rightarrow> state" where
  "alloc_state s m r c i =
     s\<lparr> mats := (mats s)(m := (mats s m)\<lparr> rows := r, columns := c, content := brk s \<rparr>),
        heap := (\<lambda>a. if a = brk s
                      then Some (map PtrV [Suc (brk s) ..< Suc (brk s) + i] @ replicate (ptr_cells r - i) Undef)
                      else if brk s < a \<and> a \<le> brk s + i then Some (replicate (row_cells c) Undef)
                      else heap s a),
        brk := Suc (brk s) + i,
        avail := drop (Suc i) (avail s) \<rparr>"

text \<open>\<open>first_ok s r\<close>: the first call of \<open>malloc\<close>, for \<open>r\<close> row pointers, returns a block.\<close>

definition first_ok :: "state \<Rightarrow> cint \<Rightarrow> bool" where
  "first_ok s r = (avail s \<noteq> [] \<and> hd (avail s) \<and> 0 \<le> sint r)"

text \<open>\<open>row_ok s c i\<close>: the call of \<open>malloc\<close> for row \<open>i\<close> returns a block.\<close>

definition row_ok :: "state \<Rightarrow> cint \<Rightarrow> nat \<Rightarrow> bool" where
  "row_ok s c i = (Suc i < length (avail s) \<and> avail s ! Suc i \<and> 0 \<le> sint c)"

text \<open>
  The state after the call of \<open>malloc\<close> for row \<open>i\<close> returned \<open>NULL\<close>, which was stored
  in \<open>m->content[i]\<close>, and the first \<open>k\<close> rows have been freed again.
\<close>

definition freeing_state :: "state \<Rightarrow> mptr \<Rightarrow> cint \<Rightarrow> cint \<Rightarrow> nat \<Rightarrow> nat \<Rightarrow> state" where
  "freeing_state s m r c i k =
     s\<lparr> mats := (mats s)(m := (mats s m)\<lparr> rows := r, columns := c, content := brk s \<rparr>),
        heap := (\<lambda>a. if a = brk s
                      then Some ((map PtrV [Suc (brk s) ..< Suc (brk s) + i] @ replicate (ptr_cells r - i) Undef)
                                  [i := PtrV 0])
                      else if brk s + k < a \<and> a \<le> brk s + i then Some (replicate (row_cells c) Undef)
                      else heap s a),
        brk := Suc (brk s) + i,
        avail := drop (Suc (Suc i)) (avail s) \<rparr>"

text \<open>
  The state \<open>matrix_allocate\<close> returns in when the block of row \<open>i\<close> could not be
  obtained: every block of the call is freed, \<open>content\<close> still holds the address of the
  array.
\<close>

definition alloc_failed :: "state \<Rightarrow> mptr \<Rightarrow> cint \<Rightarrow> cint \<Rightarrow> nat \<Rightarrow> state" where
  "alloc_failed s m r c i =
     s\<lparr> mats := (mats s)(m := (mats s m)\<lparr> rows := r, columns := c, content := brk s \<rparr>),
        brk := Suc (brk s) + i,
        avail := drop (Suc (Suc i)) (avail s) \<rparr>"

text \<open>
  The state \<open>matrix_allocate\<close> returns in when the array of row pointers could not be
  obtained.
\<close>

definition alloc_null :: "state \<Rightarrow> mptr \<Rightarrow> cint \<Rightarrow> cint \<Rightarrow> state" where
  "alloc_null s m r c =
     s\<lparr> mats := (mats s)(m := (mats s m)\<lparr> rows := r, columns := c, content := 0 \<rparr>),
        avail := tl (avail s) \<rparr>"

section \<open>Matrices in the heap\<close>

text \<open>
  \<open>holds s m ps C\<close>: the object \<open>m\<close> is an allocated matrix whose row blocks are at the
  addresses \<open>ps\<close> and hold the cells \<open>C\<close>. The blocks are distinct, \<open>rows\<close> of them, with
  \<open>columns\<close> cells each.
\<close>

definition holds :: "state \<Rightarrow> mptr \<Rightarrow> addr list \<Rightarrow> val list list \<Rightarrow> bool" where
  "holds s m ps C \<longleftrightarrow>
     0 \<le> sint (rows (mats s m)) \<and> 0 \<le> sint (columns (mats s m)) \<and>
     length ps = bound (rows (mats s m)) \<and> length C = length ps \<and>
     distinct (content (mats s m) # ps) \<and>
     heap s (content (mats s m)) = Some (map PtrV ps) \<and>
     (\<forall>k < length ps. heap s (ps ! k) = Some (C ! k) \<and>
                       length (C ! k) = bound (columns (mats s m)))"

text \<open>
  The same without naming the blocks and cells: \<open>the_rows s m\<close> are the pointers stored
  in \<open>m->content\<close>, \<open>allocated s m\<close> says that \<open>m\<close> is as \<open>matrix_allocate\<close> leaves it
  when it succeeds, \<open>initialised s m\<close> that every cell of \<open>m\<close> has been written, and
  \<open>is_matrix s m\<close> both.
\<close>

definition the_rows :: "state \<Rightarrow> mptr \<Rightarrow> addr list" where
  "the_rows s m =
     (case heap s (content (mats s m)) of
        None \<Rightarrow> []
      | Some blk \<Rightarrow> map (\<lambda>v. case v of PtrV p \<Rightarrow> p | _ \<Rightarrow> 0) blk)"

definition allocated :: "state \<Rightarrow> mptr \<Rightarrow> bool" where
  "allocated s m \<longleftrightarrow>
     0 \<le> sint (rows (mats s m)) \<and> 0 \<le> sint (columns (mats s m)) \<and>
     heap s (content (mats s m)) = Some (map PtrV (the_rows s m)) \<and>
     length (the_rows s m) = bound (rows (mats s m)) \<and>
     distinct (content (mats s m) # the_rows s m) \<and>
     list_all (\<lambda>p. case heap s p of None \<Rightarrow> False
                   | Some row \<Rightarrow> length row = bound (columns (mats s m))) (the_rows s m)"

definition initialised :: "state \<Rightarrow> mptr \<Rightarrow> bool" where
  "initialised s m \<longleftrightarrow>
     list_all (\<lambda>i. list_all (\<lambda>j. get_cell s m (int i) (int j) \<noteq> None)
                      [0 ..< bound (columns (mats s m))])
       [0 ..< bound (rows (mats s m))]"

definition is_matrix :: "state \<Rightarrow> mptr \<Rightarrow> bool" where
  "is_matrix s m \<longleftrightarrow> allocated s m \<and> initialised s m"

text \<open>The value of \<open>m->content[i][j]\<close>, for a cell that has been written.\<close>

definition cell :: "state \<Rightarrow> mptr \<Rightarrow> nat \<Rightarrow> nat \<Rightarrow> cint" where
  "cell s m i j = the (get_cell s m (int i) (int j))"

text \<open>
  \<open>frame s s' r\<close>: from \<open>s\<close> to \<open>s'\<close> no \<open>matrix_t\<close> object other than \<open>r\<close> has changed,
  and no block that was live in \<open>s\<close> has changed.
\<close>

definition frame :: "state \<Rightarrow> state \<Rightarrow> mptr \<Rightarrow> bool" where
  "frame s s' r \<longleftrightarrow>
     (\<forall>p. p \<noteq> r \<longrightarrow> mats s' p = mats s p) \<and> (\<forall>a. heap s a \<noteq> None \<longrightarrow> heap s' a = heap s a)"

text \<open>\<open>same_matrix s s' m\<close>: the object \<open>m\<close> and every cell of it that can be read are as in \<open>s\<close>.\<close>

definition same_matrix :: "state \<Rightarrow> state \<Rightarrow> mptr \<Rightarrow> bool" where
  "same_matrix s s' m \<longleftrightarrow>
     mats s' m = mats s m \<and>
     (\<forall>i j v. get_cell s m i j = Some v \<longrightarrow> get_cell s' m i j = Some v)"

text \<open>
  \<open>writing s1 m ps F t\<close>: the state \<open>t\<close> of a loop that fills the matrix \<open>m\<close>, started in
  \<open>s1\<close>. It differs from \<open>s1\<close> in the row blocks \<open>ps\<close> of \<open>m\<close> only, and the cells listed by
  \<open>F\<close> hold the values \<open>F\<close> gives.
\<close>

definition writing :: "state \<Rightarrow> mptr \<Rightarrow> addr list \<Rightarrow> (nat \<times> nat \<Rightarrow> cint option) \<Rightarrow> state \<Rightarrow> bool" where
  "writing s1 m ps F t \<longleftrightarrow>
     (\<exists>h C. t = s1\<lparr> heap := h \<rparr> \<and> (\<forall>a. a \<notin> set ps \<longrightarrow> h a = heap s1 a) \<and>
            (\<forall>p \<in> set ps. heap s1 p \<noteq> None) \<and> holds t m ps C \<and>
            (\<forall>i j v. F (i, j) = Some v \<longrightarrow>
               i < length ps \<and> j < bound (columns (mats s1 m)) \<and> C ! i ! j = IntV v))"

text \<open>The cells of the set \<open>D\<close>, with the values \<open>f\<close> gives them.\<close>

definition known :: "(nat \<times> nat \<Rightarrow> cint) \<Rightarrow> (nat \<times> nat) set \<Rightarrow> nat \<times> nat \<Rightarrow> cint option" where
  "known f D = (\<lambda>x. if x \<in> D then Some (f x) else None)"

text \<open>
  \<open>result_is s s' r rr cc f\<close>: what a function that succeeds leaves in \<open>s'\<close>, called in
  \<open>s\<close> with the result object \<open>r\<close>: \<open>r\<close> is an allocated matrix of \<open>rr\<close> rows and \<open>cc\<close>
  columns with the cells \<open>f\<close>, nothing else has changed, and \<open>malloc\<close> was called once for
  the row pointers and once for every row.
\<close>

definition result_is :: "state \<Rightarrow> state \<Rightarrow> mptr \<Rightarrow> cint \<Rightarrow> cint \<Rightarrow> (nat \<times> nat \<Rightarrow> cint) \<Rightarrow> bool" where
  "result_is s s' r rr cc f \<longleftrightarrow>
     rows (mats s' r) = rr \<and> columns (mats s' r) = cc \<and>
     (\<forall>i < bound rr. \<forall>j < bound cc. get_cell s' r (int i) (int j) = Some (f (i, j))) \<and>
     allocated s' r \<and> frame s s' r \<and> heap_ok s' \<and>
     avail s' = drop (Suc (bound rr)) (avail s)"

text \<open>
  \<open>touches_only s r t\<close>: a state \<open>t\<close> reached from \<open>s\<close> after the result object \<open>r\<close> was
  allocated. Nothing of \<open>s\<close> but the object \<open>r\<close> has changed, and the row pointers of \<open>r\<close>
  are in a block that was not live in \<open>s\<close> and point to blocks that were not live in \<open>s\<close>.
\<close>

definition touches_only :: "state \<Rightarrow> mptr \<Rightarrow> state \<Rightarrow> bool" where
  "touches_only s r t \<longleftrightarrow>
     frame s t r \<and> heap s (content (mats t r)) = None \<and>
     (\<exists>ps. heap t (content (mats t r)) = Some (map PtrV ps) \<and>
           content (mats t r) \<notin> set ps \<and> (\<forall>p \<in> set ps. heap s p = None))"

text \<open>
  The sum of the first \<open>k\<close> terms \<open>m1[i][k'] * m2[k'][j]\<close>, added in increasing order of
  \<open>k'\<close> to 0.
\<close>

definition dot :: "state \<Rightarrow> mptr \<Rightarrow> mptr \<Rightarrow> nat \<Rightarrow> nat \<Rightarrow> nat \<Rightarrow> cint" where
  "dot s m1 m2 i j k = foldl (\<lambda>acc k'. acc + cell s m1 i k' * cell s m2 k' j) 0 [0 ..< k]"

text \<open>The cells of the identity matrix of \<open>n\<close> rows whose first \<open>k\<close> diagonal cells are set.\<close>

definition diag :: "nat \<Rightarrow> nat \<Rightarrow> nat \<times> nat \<Rightarrow> cint option" where
  "diag n k = (\<lambda>(i, j). if i < n \<and> j < n then Some (if i = j \<and> i < k then 1 else 0) else None)"

section \<open>Lines and tokens\<close>

text \<open>The tokens of a line: what the repeated calls of \<open>strtok_r\<close> return.\<close>

function tokens :: "string \<Rightarrow> string list" where
  "tokens str =
     (case strtok_r str of
        None \<Rightarrow> []
      | Some (tok, rest) \<Rightarrow> tok # tokens rest)"
  by pat_completeness auto

termination
  by (relation "measure length") (auto dest: strtok_r_shorter)

declare tokens.simps [simp del]

text \<open>
  What the specification asks of the second pass on one line: the given tokens are
  converted and stored in the cells of the row, from column \<open>col\<close> on.
\<close>

fun put_tokens :: "mptr \<Rightarrow> cint \<Rightarrow> cint \<Rightarrow> string list \<Rightarrow> state \<Rightarrow> state option" where
  "put_tokens m row col [] s = Some s"
| "put_tokens m row col (tok # toks) s =
     (case atoi tok of
        None \<Rightarrow> None
      | Some v \<Rightarrow>
          (case set_cell s m (sint row) (sint col) v of
             None \<Rightarrow> None
           | Some s1 \<Rightarrow> put_tokens m row (col + 1) toks s1))"

text \<open>
  \<open>blank_added t t'\<close>: the text \<open>t'\<close> is \<open>t\<close> with blank lines added, each a single
  newline put where a line starts (at the start of the text or after a newline).
\<close>

inductive blank_added :: "string \<Rightarrow> string \<Rightarrow> bool" where
  same: "blank_added t t"
| add: "blank_added t (a @ b) \<Longrightarrow> a = [] \<or> last a = newline \<Longrightarrow> blank_added t (a @ newline # b)"

section \<open>A state with four matrices\<close>

text \<open>
  The matrices at 1, 2, 3 and 4 are \<open>[[1,2,3],[4,5,6]]\<close>, \<open>[[7,8],[9,10],[11,12]]\<close>,
  \<open>[[10,20,30],[40,50,60]]\<close> and a 2 by 2 matrix whose cells were never written. The
  objects at 0 and 5 hold no matrix. Memory is left for eight calls of \<open>malloc\<close>.
\<close>

definition ex_heap :: "addr \<Rightarrow> val list option" where
  "ex_heap =
     (\<lambda>_. None)
       (1 := Some [PtrV 2, PtrV 3],
        2 := Some [IntV 1, IntV 2, IntV 3],
        3 := Some [IntV 4, IntV 5, IntV 6],
        4 := Some [PtrV 5, PtrV 6, PtrV 7],
        5 := Some [IntV 7, IntV 8],
        6 := Some [IntV 9, IntV 10],
        7 := Some [IntV 11, IntV 12],
        8 := Some [PtrV 9, PtrV 10],
        9 := Some [IntV 10, IntV 20, IntV 30],
        10 := Some [IntV 40, IntV 50, IntV 60],
        11 := Some [PtrV 12, PtrV 13],
        12 := Some [Undef, Undef],
        13 := Some [Undef, Undef])"

definition ex_mats :: "mptr \<Rightarrow> matrix_t" where
  "ex_mats =
     (\<lambda>_. \<lparr> rows = 0, columns = 0, content = 0 \<rparr>)
       (1 := \<lparr> rows = 2, columns = 3, content = 1 \<rparr>,
        2 := \<lparr> rows = 3, columns = 2, content = 4 \<rparr>,
        3 := \<lparr> rows = 2, columns = 3, content = 8 \<rparr>,
        4 := \<lparr> rows = 2, columns = 2, content = 11 \<rparr>)"

definition ex_state :: state where
  "ex_state = init_state\<lparr> mats := ex_mats, heap := ex_heap, brk := 14,
     avail := [True, True, True, True, True, True, True, True] \<rparr>"

text \<open>
  Two files in the state of the four matrices: rows \<open>1 2\<close> and \<open>3 4\<close>, and the same
  rows with a blank line between them.
\<close>

definition ex_text :: string where
  "ex_text = ''1 2'' @ [newline] @ ''3 4'' @ [newline]"

definition ex_text_blank :: string where
  "ex_text_blank = ''1 2'' @ [newline] @ [newline] @ ''3 4'' @ [newline]"

definition io_state :: state where
  "io_state = ex_state\<lparr> files := (\<lambda>_. None)(''a.txt'' := Some ex_text, ''b.txt'' := Some ex_text_blank) \<rparr>"

section \<open>Checks before any write\<close>

text \<open>
  C10. Every check of a precondition comes before the first write: when
  \<open>matrix_init_identity\<close> fails on a matrix that is not square, \<open>matrix_init_rand\<close> on
  \<open>val_min > val_max\<close>, \<open>matrix_sum\<close> or \<open>matrix_product\<close> on dimensions that do not
  fit, the function returns \<open>-1\<close> and the state it leaves is the state it found: no
  \<open>matrix_t\<close> object, the result's included, and no block of the heap has changed.
\<close>

theorem failed_check_leaves_state:
  "(rows (mats s m) \<noteq> columns (mats s m) \<longrightarrow> matrix_init_identity s m = Some (- 1, s)) \<and>
   (sint val_min > sint val_max \<longrightarrow> matrix_init_rand s m val_min val_max = Some (- 1, s)) \<and>
   (rows (mats s m1) \<noteq> rows (mats s m2) \<or> columns (mats s m1) \<noteq> columns (mats s m2) \<longrightarrow>
      matrix_sum s m1 m2 result = Some (- 1, s)) \<and>
   (columns (mats s m1) \<noteq> rows (mats s m2) \<longrightarrow> matrix_product s m1 m2 result = Some (- 1, s))"
  by (simp add: matrix_init_identity_def matrix_init_rand_def matrix_sum_def matrix_product_def)

theorem failed_check_leaves_state_witness:
  "rows (mats ex_state 1) \<noteq> columns (mats ex_state 1) \<and>
   matrix_init_identity ex_state 1 = Some (- 1, ex_state) \<and>
   sint (5 :: cint) > sint (1 :: cint) \<and>
   matrix_init_rand ex_state 1 5 1 = Some (- 1, ex_state) \<and>
   rows (mats ex_state 1) \<noteq> rows (mats ex_state 2) \<and>
   matrix_sum ex_state 1 2 0 = Some (- 1, ex_state) \<and>
   columns (mats ex_state 1) \<noteq> rows (mats ex_state 3) \<and>
   matrix_product ex_state 1 3 0 = Some (- 1, ex_state)"
proof -
  have a: "rows (mats ex_state 1) \<noteq> columns (mats ex_state 1)"
    by (simp add: ex_state_def ex_mats_def)
  have b: "sint (5 :: cint) > sint (1 :: cint)" by simp
  have c: "rows (mats ex_state 1) \<noteq> rows (mats ex_state 2)"
    by (simp add: ex_state_def ex_mats_def)
  have d: "columns (mats ex_state 1) \<noteq> rows (mats ex_state 3)"
    by (simp add: ex_state_def ex_mats_def)
  from a b c d
    failed_check_leaves_state [where s = ex_state and m = 1 and val_min = 5 and val_max = 1
      and ?m1.0 = 1 and ?m2.0 = 2 and result = 0]
    failed_check_leaves_state [where s = ex_state and m = 1 and val_min = 5 and val_max = 1
      and ?m1.0 = 1 and ?m2.0 = 3 and result = 0]
  show ?thesis by simp
qed

section \<open>Rules for the loops\<close>

lemma for_loop_inv:
  assumes "I i s" and "i \<le> n"
    and "\<And>k t. i \<le> k \<Longrightarrow> k < n \<Longrightarrow> I k t \<Longrightarrow> \<exists>t'. body k t = Some t' \<and> I (Suc k) t'"
  shows "\<exists>s'. for_loop i n body s = Some s' \<and> I n s'"
  using assms
proof (induction "n - i" arbitrary: i s)
  case 0
  then show ?case by (simp add: for_loop.simps)
next
  case (Suc d)
  then have lt: "i < n" by simp
  from Suc.prems(3) [of i s] lt Suc.prems(1) obtain t where t: "body i s = Some t" "I (Suc i) t"
    by auto
  have "\<exists>s'. for_loop (Suc i) n body t = Some s' \<and> I n s'"
  proof (rule Suc.hyps(1))
    show "d = n - Suc i" using Suc.hyps(2) by simp
    show "I (Suc i) t" by (rule t)
    show "Suc i \<le> n" using lt by simp
    show "\<exists>t'. body k u = Some t' \<and> I (Suc k) t'" if "Suc i \<le> k" "k < n" "I k u" for k u
      using Suc.prems(3) [of k u] that by simp
  qed
  then show ?case using t lt by (subst for_loop.simps) simp
qed

lemma for_loop_pres:
  assumes "for_loop i n body s = Some s'" and "P s"
    and "\<And>k t t'. k < n \<Longrightarrow> P t \<Longrightarrow> body k t = Some t' \<Longrightarrow> P t'"
  shows "P s'"
  using assms
proof (induction "n - i" arbitrary: i s)
  case 0
  then show ?case by (simp add: for_loop.simps)
next
  case (Suc d)
  then have lt: "i < n" by simp
  from Suc.prems(1) lt obtain t where t: "body i s = Some t" "for_loop (Suc i) n body t = Some s'"
    by (subst (asm) for_loop.simps) (auto split: option.splits)
  have "P t" using Suc.prems(3) [OF lt Suc.prems(2) t(1)] .
  show ?case
  proof (rule Suc.hyps(1) [OF _ t(2) \<open>P t\<close>])
    show "d = n - Suc i" using Suc.hyps(2) by simp
    show "P t'" if "k < n" "P u" "body k u = Some t'" for k u t'
      using Suc.prems(3) that by blast
  qed
qed

section \<open>The sizes of the requests\<close>

lemma to_size_t_nonneg: "0 \<le> sint r \<Longrightarrow> to_size_t r = nat (sint r) \<and> nat (sint r) < 2 ^ 31"
proof -
  assume a: "0 \<le> sint r"
  have lt: "sint r < 2 ^ 31" using sint_lt [of r] by simp
  then have "sint r < 2 ^ 64" by (rule less_trans) simp
  with a have "sint r mod 2 ^ 64 = sint r" by (rule mod_pos_pos_trivial)
  then have "to_size_t r = nat (sint r)" unfolding to_size_t_def by (rule arg_cong)
  moreover have "nat (sint r) < 2 ^ 31" using lt a by (simp add: nat_less_iff)
  ultimately show ?thesis by simp
qed

lemma to_size_t_neg: "sint r < 0 \<Longrightarrow> 2 ^ 64 - 2 ^ 31 \<le> to_size_t r \<and> to_size_t r < 2 ^ 64"
proof -
  assume a: "sint r < 0"
  have g: "- (2 ^ 31) \<le> sint r" using sint_ge [of r] by simp
  have "(sint r + 2 ^ 64) mod 2 ^ 64 = sint r + 2 ^ 64"
    by (rule mod_pos_pos_trivial) (use a g in simp_all)
  then have b: "sint r mod 2 ^ 64 = sint r + 2 ^ 64" by (simp only: mod_add_self2)
  have "to_size_t r = nat (sint r + 2 ^ 64)" unfolding to_size_t_def by (rule arg_cong [OF b])
  then show ?thesis using a g by (simp add: nat_le_iff nat_less_iff le_nat_iff)
qed

lemma size_mul_small: "a < 2 ^ 31 \<Longrightarrow> size_mul a 8 = a * 8 \<and> size_mul a 4 = a * 4"
  by (simp add: size_mul_def)

lemma ptr_cells_bound: "0 \<le> sint r \<Longrightarrow> ptr_cells r = bound r"
  using to_size_t_nonneg [of r] size_mul_small [of "nat (sint r)"]
  by (simp add: ptr_cells_def bound_def)

lemma row_cells_bound: "0 \<le> sint r \<Longrightarrow> row_cells r = bound r"
  using to_size_t_nonneg [of r] size_mul_small [of "nat (sint r)"]
  by (simp add: row_cells_def bound_def)

lemma size_ok:
  "0 \<le> sint r \<Longrightarrow> size_mul (to_size_t r) 8 \<le> PTRDIFF_MAX \<and> size_mul (to_size_t r) 4 \<le> PTRDIFF_MAX"
  using to_size_t_nonneg [of r] size_mul_small [of "nat (sint r)"]
  by (simp add: PTRDIFF_MAX_def)

lemma size_neg:
  "sint r < 0 \<Longrightarrow> \<not> size_mul (to_size_t r) 8 \<le> PTRDIFF_MAX \<and> \<not> size_mul (to_size_t r) 4 \<le> PTRDIFF_MAX"
proof -
  assume "sint r < 0"
  then have b: "2 ^ 64 - 2 ^ 31 \<le> to_size_t r" "to_size_t r < 2 ^ 64" using to_size_t_neg by auto
  define x where "x = 2 ^ 64 - to_size_t r"
  have x: "to_size_t r = 2 ^ 64 - x" "0 < x" "x \<le> 2 ^ 31" using b by (auto simp: x_def)
  have "(2 ^ 64 - x) * 8 = 7 * 2 ^ 64 + (2 ^ 64 - 8 * x)" using x by simp
  then have "((2 ^ 64 - x) * 8) mod 2 ^ 64 = (2 ^ 64 - 8 * x) mod 2 ^ 64"
    by (metis mod_mult_self4 mult.commute)
  also have "\<dots> = 2 ^ 64 - 8 * x" using x by simp
  finally have e8: "size_mul (to_size_t r) 8 = 2 ^ 64 - 8 * x" by (simp only: size_mul_def x(1))
  have "(2 ^ 64 - x) * 4 = 3 * 2 ^ 64 + (2 ^ 64 - 4 * x)" using x by simp
  then have "((2 ^ 64 - x) * 4) mod 2 ^ 64 = (2 ^ 64 - 4 * x) mod 2 ^ 64"
    by (metis mod_mult_self4 mult.commute)
  also have "\<dots> = 2 ^ 64 - 4 * x" using x by simp
  finally have e4: "size_mul (to_size_t r) 4 = 2 ^ 64 - 4 * x" by (simp only: size_mul_def x(1))
  show ?thesis unfolding e8 e4 PTRDIFF_MAX_def using x(2,3) by (simp del: One_nat_def) arith
qed

section \<open>The loop of the allocation\<close>

lemma ptr_block_upd:
  "i < n \<Longrightarrow> (map PtrV [b ..< b + i] @ replicate (n - i) Undef)[i := PtrV (b + i)]
      = map PtrV [b ..< b + Suc i] @ replicate (n - Suc i) Undef"
  by (auto simp: list_eq_iff_nth_eq nth_append nth_list_update less_Suc_eq)

lemma alloc_rows_step:
  assumes "i < bound r" "0 \<le> sint r" "row_ok s c i"
  shows "alloc_rows m i (bound r) c (alloc_state s m r c i)
         = alloc_rows m (Suc i) (bound r) c (alloc_state s m r c (Suc i))"
proof -
  from assms(3) have av: "drop (Suc i) (avail s) = True # drop (Suc (Suc i)) (avail s)"
    and c: "0 \<le> sint c"
    by (auto simp: row_ok_def simp flip: Cons_nth_drop_Suc)
  have sz: "size_mul (to_size_t c) 4 \<le> PTRDIFF_MAX" using size_ok [OF c] by simp
  have n: "ptr_cells r = bound r" using assms(2) by (rule ptr_cells_bound)
  have blk: "(map PtrV [Suc (brk s) ..< Suc (brk s) + i] @ replicate (bound r - i) Undef)[i := PtrV (Suc (brk s) + i)]
      = map PtrV [Suc (brk s) ..< Suc (brk s) + Suc i] @ replicate (bound r - Suc i) Undef"
    using assms(1) by (rule ptr_block_upd)
  have "malloc (size_mul (to_size_t c) 4) 4 (alloc_state s m r c i)
      = (Suc (brk s) + i,
         (alloc_state s m r c i)\<lparr> heap := (heap (alloc_state s m r c i))(Suc (brk s) + i := Some (replicate (row_cells c) Undef)),
            brk := Suc (Suc (brk s) + i), avail := drop (Suc (Suc i)) (avail s) \<rparr>)"
    using sz by (simp add: malloc_def alloc_state_def av row_cells_def)
  moreover have "store ((alloc_state s m r c i)\<lparr> heap := (heap (alloc_state s m r c i))(Suc (brk s) + i := Some (replicate (row_cells c) Undef)),
            brk := Suc (Suc (brk s) + i), avail := drop (Suc (Suc i)) (avail s) \<rparr>) (brk s) (int i) (PtrV (Suc (brk s) + i))
      = Some (alloc_state s m r c (Suc i))"
    using assms(1) blk by (auto simp: store_def alloc_state_def n fun_eq_iff)
  ultimately show ?thesis
    using assms(1) by (subst alloc_rows.simps) (simp add: alloc_state_def)
qed

lemma heap_ok_fresh: "heap_ok s \<Longrightarrow> brk s \<le> a \<Longrightarrow> heap s a = None"
  by (auto simp: heap_ok_def)

lemma ptr_block_nth:
  "k < i \<Longrightarrow> i < n \<Longrightarrow> (map PtrV [b ..< b + i] @ replicate (n - i) Undef)[i := PtrV 0] ! k = PtrV (b + k)"
  by (simp add: nth_append nth_list_update)

lemma free_rows_freeing:
  assumes "heap_ok s" "i < ptr_cells r"
  shows "free_rows m i (freeing_state s m r c i 0) = Some (freeing_state s m r c i i)"
proof -
  have "\<exists>t. for_loop 0 i
       (\<lambda>j t. case load_ptr t (content (mats t m)) (int j) of None \<Rightarrow> None | Some p \<Rightarrow> free p t)
       (freeing_state s m r c i 0) = Some t \<and> t = freeing_state s m r c i i"
  proof (rule for_loop_inv [where I = "\<lambda>k t. t = freeing_state s m r c i k"])
    fix k t
    assume k: "0 \<le> k" "k < i" and t: "t = freeing_state s m r c i k"
    have ld: "load_ptr t (content (mats t m)) (int k) = Some (Suc (brk s) + k)"
      using k assms(2) ptr_block_nth [of k i "ptr_cells r" "Suc (brk s)"]
      by (simp add: t freeing_state_def load_ptr_def load_def)
    have "free (Suc (brk s) + k) t = Some (freeing_state s m r c i (Suc k))"
      using k heap_ok_fresh [OF assms(1), of "Suc (brk s) + k"]
      by (auto simp: t freeing_state_def free_def fun_eq_iff)
    with ld show "\<exists>t'. (case load_ptr t (content (mats t m)) (int k) of None \<Rightarrow> None | Some p \<Rightarrow> free p t) = Some t'
        \<and> t' = freeing_state s m r c i (Suc k)"
      by simp
  qed simp_all
  then show ?thesis by (simp add: free_rows_def)
qed

lemma free_content_freeing:
  assumes "heap_ok s"
  shows "free (content (mats (freeing_state s m r c i i) m)) (freeing_state s m r c i i)
         = Some (alloc_failed s m r c i)"
proof -
  have "0 < brk s" using assms by (simp add: heap_ok_def)
  moreover have "heap s a = None" if "brk s \<le> a" for a using assms that by (rule heap_ok_fresh)
  ultimately show ?thesis
    by (auto simp: freeing_state_def alloc_failed_def free_def fun_eq_iff)
qed

lemma malloc_fails:
  "\<not> (avail s \<noteq> [] \<and> hd (avail s) \<and> bytes \<le> PTRDIFF_MAX) \<Longrightarrow>
     malloc bytes sz s = (0, s\<lparr> avail := tl (avail s) \<rparr>)"
  by (cases "avail s") (auto simp: malloc_def)

lemma alloc_rows_fail:
  assumes "i < bound r" "0 \<le> sint r" "\<not> row_ok s c i" "heap_ok s"
  shows "alloc_rows m i (bound r) c (alloc_state s m r c i) = Some (- 1, alloc_failed s m r c i)"
proof -
  have n: "ptr_cells r = bound r" using assms(2) by (rule ptr_cells_bound)
  have "\<not> (avail (alloc_state s m r c i) \<noteq> [] \<and> hd (avail (alloc_state s m r c i))
          \<and> size_mul (to_size_t c) 4 \<le> PTRDIFF_MAX)"
    using assms(3) size_neg [of c]
    by (auto simp: row_ok_def alloc_state_def hd_drop_conv_nth not_le)
  then have ml: "malloc (size_mul (to_size_t c) 4) 4 (alloc_state s m r c i)
      = (0, (alloc_state s m r c i)\<lparr> avail := drop (Suc (Suc i)) (avail s) \<rparr>)"
    by (simp add: malloc_fails alloc_state_def drop_Suc tl_drop)
  have st: "store ((alloc_state s m r c i)\<lparr> avail := drop (Suc (Suc i)) (avail s) \<rparr>) (brk s) (int i) (PtrV 0)
      = Some (freeing_state s m r c i 0)"
    using assms(1) by (auto simp: store_def alloc_state_def freeing_state_def n fun_eq_iff)
  have fr: "free_rows m i (freeing_state s m r c i 0) = Some (freeing_state s m r c i i)"
    using assms(1,4) n by (simp add: free_rows_freeing)
  have fc: "free (content (mats (freeing_state s m r c i i) m)) (freeing_state s m r c i i)
         = Some (alloc_failed s m r c i)"
    using assms(4) by (rule free_content_freeing)
  show ?thesis
    using assms(1) ml st fr fc
    by (subst alloc_rows.simps) (simp add: alloc_state_def)
qed

lemma alloc_rows_all:
  assumes "0 \<le> sint r" "i \<le> bound r" "\<forall>k. i \<le> k \<and> k < bound r \<longrightarrow> row_ok s c k"
  shows "alloc_rows m i (bound r) c (alloc_state s m r c i) = Some (0, alloc_state s m r c (bound r))"
  using assms(2,3)
proof (induction "bound r - i" arbitrary: i)
  case 0
  then show ?case by (subst alloc_rows.simps) simp
next
  case (Suc d)
  then have lt: "i < bound r" by simp
  have "alloc_rows m i (bound r) c (alloc_state s m r c i)
         = alloc_rows m (Suc i) (bound r) c (alloc_state s m r c (Suc i))"
    using lt assms(1) Suc.prems(2) by (simp add: alloc_rows_step)
  also have "\<dots> = Some (0, alloc_state s m r c (bound r))"
    using Suc.hyps(2) lt Suc.prems(2) by (intro Suc.hyps(1)) auto
  finally show ?case .
qed

lemma alloc_rows_first_fail:
  assumes "0 \<le> sint r" "heap_ok s" "i \<le> k" "k < bound r" "\<not> row_ok s c k"
    "\<forall>j. i \<le> j \<and> j < k \<longrightarrow> row_ok s c j"
  shows "alloc_rows m i (bound r) c (alloc_state s m r c i) = Some (- 1, alloc_failed s m r c k)"
  using assms(3,6)
proof (induction "k - i" arbitrary: i)
  case 0
  then have "i = k" by simp
  then show ?case using assms by (simp add: alloc_rows_fail)
next
  case (Suc d)
  then have lt: "i < k" by simp
  have "alloc_rows m i (bound r) c (alloc_state s m r c i)
         = alloc_rows m (Suc i) (bound r) c (alloc_state s m r c (Suc i))"
    using lt assms(1,4) Suc.prems(2) by (simp add: alloc_rows_step)
  also have "\<dots> = Some (- 1, alloc_failed s m r c k)"
    using Suc.hyps(2) lt Suc.prems(2) by (intro Suc.hyps(1)) auto
  finally show ?case .
qed

section \<open>The outcomes of the allocation\<close>

lemma matrix_allocate_null:
  "\<not> first_ok s r \<Longrightarrow> matrix_allocate s m r c = Some (- 1, alloc_null s m r c)"
proof -
  assume a: "\<not> first_ok s r"
  let ?s0 = "s\<lparr> mats := (mats s)(m := (mats s m)\<lparr> rows := r, columns := c \<rparr>) \<rparr>"
  have "\<not> (avail ?s0 \<noteq> [] \<and> hd (avail ?s0) \<and> size_mul (to_size_t r) 8 \<le> PTRDIFF_MAX)"
    using a size_neg [of r] by (auto simp: first_ok_def not_le)
  then have "malloc (size_mul (to_size_t r) 8) 8 ?s0 = (0, ?s0\<lparr> avail := tl (avail ?s0) \<rparr>)"
    by (rule malloc_fails)
  then show ?thesis
    by (simp add: matrix_allocate_def alloc_null_def Let_def)
qed

lemma matrix_allocate_rows:
  assumes "first_ok s r" "heap_ok s"
  shows "matrix_allocate s m r c = alloc_rows m 0 (bound r) c (alloc_state s m r c 0)"
proof -
  let ?s0 = "s\<lparr> mats := (mats s)(m := (mats s m)\<lparr> rows := r, columns := c \<rparr>) \<rparr>"
  from assms(1) obtain rest where av: "avail s = True # rest" and r: "0 \<le> sint r"
    by (cases "avail s") (auto simp: first_ok_def)
  have b: "brk s \<noteq> 0" using assms(2) by (simp add: heap_ok_def)
  have sz: "size_mul (to_size_t r) 8 \<le> PTRDIFF_MAX" using size_ok [OF r] by simp
  have "malloc (size_mul (to_size_t r) 8) 8 ?s0
      = (brk s, ?s0\<lparr> heap := (heap s)(brk s := Some (replicate (ptr_cells r) Undef)),
                       brk := Suc (brk s), avail := rest \<rparr>)"
    using sz by (simp add: malloc_def av ptr_cells_def)
  moreover have "(?s0\<lparr> heap := (heap s)(brk s := Some (replicate (ptr_cells r) Undef)),
                       brk := Suc (brk s), avail := rest \<rparr>)
       \<lparr> mats := (mats s)(m := (mats s m)\<lparr> rows := r, columns := c, content := brk s \<rparr>) \<rparr>
     = alloc_state s m r c 0"
    by (auto simp: alloc_state_def av fun_eq_iff)
  ultimately show ?thesis
    using b by (simp add: matrix_allocate_def Let_def)
qed

lemma mem_row_ok: "mem (Suc n) s \<Longrightarrow> 0 \<le> sint c \<Longrightarrow> k < n \<Longrightarrow> row_ok s c k"
  by (auto simp: mem_def row_ok_def list_all_length)

lemma mem_first_ok: "mem (Suc n) s \<Longrightarrow> 0 \<le> sint r \<Longrightarrow> first_ok s r"
  by (cases "avail s") (auto simp: mem_def first_ok_def)

lemma matrix_allocate_ok:
  assumes "heap_ok s" "0 \<le> sint r" "0 \<le> sint c" "mem (Suc (bound r)) s"
  shows "matrix_allocate s m r c = Some (0, alloc_state s m r c (bound r))"
proof -
  have "matrix_allocate s m r c = alloc_rows m 0 (bound r) c (alloc_state s m r c 0)"
    using assms by (simp add: matrix_allocate_rows mem_first_ok)
  also have "\<dots> = Some (0, alloc_state s m r c (bound r))"
    using assms by (intro alloc_rows_all) (auto intro: mem_row_ok)
  finally show ?thesis .
qed

lemma ok_imp_mem:
  assumes "first_ok s r" "\<forall>k. k < n \<longrightarrow> row_ok s c k"
  shows "mem (Suc n) s"
proof -
  have len: "Suc n \<le> length (avail s)"
  proof (cases n)
    case 0
    then show ?thesis using assms(1) by (cases "avail s") (auto simp: first_ok_def)
  next
    case (Suc k)
    then show ?thesis using assms(2) by (auto simp: row_ok_def)
  qed
  have "avail s ! i" if "i < Suc n" for i
  proof (cases i)
    case 0
    then show ?thesis using assms(1) by (cases "avail s") (auto simp: first_ok_def)
  next
    case (Suc k)
    then show ?thesis using assms(2) that by (auto simp: row_ok_def)
  qed
  with len show ?thesis by (auto simp: mem_def list_all_length)
qed

lemma matrix_allocate_cases:
  assumes "heap_ok s"
  shows "matrix_allocate s m r c = Some (0, alloc_state s m r c (bound r)) \<and> 0 \<le> sint r
           \<and> mem (Suc (bound r)) s
       \<or> matrix_allocate s m r c = Some (- 1, alloc_null s m r c) \<and> \<not> first_ok s r
       \<or> (\<exists>k < bound r. matrix_allocate s m r c = Some (- 1, alloc_failed s m r c k) \<and> first_ok s r)"
proof (cases "first_ok s r")
  case False
  then show ?thesis by (simp add: matrix_allocate_null)
next
  case fo: True
  then have r: "0 \<le> sint r" by (simp add: first_ok_def)
  have eq: "matrix_allocate s m r c = alloc_rows m 0 (bound r) c (alloc_state s m r c 0)"
    using fo assms by (rule matrix_allocate_rows)
  show ?thesis
  proof (cases "\<forall>k. 0 \<le> k \<and> k < bound r \<longrightarrow> row_ok s c k")
    case True
    then have "mem (Suc (bound r)) s" using fo by (intro ok_imp_mem [where c = c]) auto
    then show ?thesis using True r eq by (simp add: alloc_rows_all)
  next
    case False
    define k where "k = (LEAST k. k < bound r \<and> \<not> row_ok s c k)"
    from False have ex: "\<exists>k. k < bound r \<and> \<not> row_ok s c k" by auto
    then have k: "k < bound r \<and> \<not> row_ok s c k" unfolding k_def by (rule LeastI_ex)
    have least: "row_ok s c j" if "j < k" for j
      using not_less_Least [of j "\<lambda>k. k < bound r \<and> \<not> row_ok s c k"] that k unfolding k_def by auto
    have "alloc_rows m 0 (bound r) c (alloc_state s m r c 0) = Some (- 1, alloc_failed s m r c k)"
      using r assms k least by (intro alloc_rows_first_fail) auto
    then show ?thesis using eq k fo by auto
  qed
qed

lemma heap_ok_alloc_state: "heap_ok s \<Longrightarrow> heap_ok (alloc_state s m r c i)"
  by (auto simp: heap_ok_def alloc_state_def split: if_splits)

lemma heap_ok_alloc_failed: "heap_ok s \<Longrightarrow> heap_ok (alloc_failed s m r c i)"
  by (fastforce simp: heap_ok_def alloc_failed_def)

lemma heap_ok_alloc_null: "heap_ok s \<Longrightarrow> heap_ok (alloc_null s m r c)"
  by (simp add: heap_ok_def alloc_null_def)

section \<open>What a failed allocation leaves\<close>

lemma heap_ok_ex_state: "heap_ok (ex_state\<lparr> avail := av \<rparr>)"
  by (auto simp: heap_ok_def ex_state_def ex_heap_def init_state_def split: if_splits)

lemma matrix_free_alloc_null:
  "\<exists>s''. matrix_free (alloc_null s m r c) m = Some s'' \<and> rows (mats s'' m) = 0 \<and>
      columns (mats s'' m) = 0 \<and> content (mats s'' m) = 0 \<and> heap s'' = heap s"
  by (simp add: matrix_free_def alloc_null_def)

text \<open>
  \<open>matrix_allocate\<close> assigns \<open>rows\<close> and \<open>columns\<close> before the first \<open>malloc\<close> and
  never resets them, so after a failure they are the requested 2 and 2, not 0. When
  the block of a row cannot be obtained, the failure path frees \<open>m->content\<close> and
  leaves the pointer as it is: \<open>content\<close> is not null, and \<open>matrix_free\<close> then frees
  through it, which has no defined behaviour.
\<close>

theorem allocate_failure_not_empty:
  "matrix_allocate (ex_state\<lparr> avail := [False] \<rparr>) 0 2 2
     = Some (- 1, alloc_null (ex_state\<lparr> avail := [False] \<rparr>) 0 2 2) \<and>
   rows (mats (alloc_null (ex_state\<lparr> avail := [False] \<rparr>) 0 2 2) 0) \<noteq> 0 \<and>
   columns (mats (alloc_null (ex_state\<lparr> avail := [False] \<rparr>) 0 2 2) 0) \<noteq> 0 \<and>
   matrix_allocate (ex_state\<lparr> avail := [True, False] \<rparr>) 0 2 2
     = Some (- 1, alloc_failed (ex_state\<lparr> avail := [True, False] \<rparr>) 0 2 2 0) \<and>
   content (mats (alloc_failed (ex_state\<lparr> avail := [True, False] \<rparr>) 0 2 2 0) 0) \<noteq> 0 \<and>
   matrix_free (alloc_failed (ex_state\<lparr> avail := [True, False] \<rparr>) 0 2 2 0) 0 = None"
proof -
  let ?s = "ex_state\<lparr> avail := [False] \<rparr>"
  let ?t = "ex_state\<lparr> avail := [True, False] \<rparr>"
  have 1: "matrix_allocate ?s 0 2 2 = Some (- 1, alloc_null ?s 0 2 2)"
    by (rule matrix_allocate_null) (simp add: first_ok_def)
  have 2: "rows (mats (alloc_null ?s 0 2 2) 0) \<noteq> 0" "columns (mats (alloc_null ?s 0 2 2) 0) \<noteq> 0"
    by (simp_all add: alloc_null_def)
  have "matrix_allocate ?t 0 2 2 = alloc_rows 0 0 (bound 2) 2 (alloc_state ?t 0 2 2 0)"
    by (rule matrix_allocate_rows) (simp_all add: first_ok_def heap_ok_ex_state)
  also have "\<dots> = Some (- 1, alloc_failed ?t 0 2 2 0)"
    by (rule alloc_rows_fail) (simp_all add: bound_def row_ok_def heap_ok_ex_state)
  finally have 3: "matrix_allocate ?t 0 2 2 = Some (- 1, alloc_failed ?t 0 2 2 0)" .
  have 4: "content (mats (alloc_failed ?t 0 2 2 0) 0) \<noteq> 0"
    by (simp add: alloc_failed_def ex_state_def)
  have 5: "matrix_free (alloc_failed ?t 0 2 2 0) 0 = None"
    by (simp add: matrix_free_def free_rows_def for_loop.simps [of 0] bound_def load_ptr_def load_def
        alloc_failed_def ex_state_def ex_heap_def)
  from 1 2 3 4 5 show ?thesis by simp
qed

text \<open>
  C2, as the code has it. When \<open>matrix_allocate\<close> fails it returns \<open>-1\<close>; \<open>rows\<close> and
  \<open>columns\<close> hold the requested values; every block the call obtained has been freed
  (the heap is as before) and no other \<open>matrix_t\<close> object has changed. When the failure
  is that of the array of row pointers (\<open>first_ok\<close> does not hold), \<open>content\<close> is null, and
  \<open>matrix_free\<close> is then defined and leaves the empty state: \<open>rows = 0\<close>,
  \<open>columns = 0\<close>, \<open>content\<close> null, nothing allocated.
\<close>

theorem allocate_failure_state:
  assumes "heap_ok s" and "matrix_allocate s m r c = Some (rc, s')" and "rc \<noteq> 0"
  shows "rc = - 1 \<and> rows (mats s' m) = r \<and> columns (mats s' m) = c \<and>
         heap s' = heap s \<and> (\<forall>p. p \<noteq> m \<longrightarrow> mats s' p = mats s p) \<and>
         (\<not> first_ok s r \<longrightarrow>
            content (mats s' m) = 0 \<and>
            (\<exists>s''. matrix_free s' m = Some s'' \<and> rows (mats s'' m) = 0 \<and>
                   columns (mats s'' m) = 0 \<and> content (mats s'' m) = 0 \<and> heap s'' = heap s))"
proof -
  from matrix_allocate_cases [OF assms(1), of m r c] assms(2,3)
  consider "s' = alloc_null s m r c" "rc = - 1" "\<not> first_ok s r"
    | k where "s' = alloc_failed s m r c k" "rc = - 1" "first_ok s r"
    by (cases "first_ok s r") auto
  then show ?thesis
  proof cases
    case 1
    then show ?thesis using matrix_free_alloc_null [of s m r c] by (simp add: alloc_null_def)
  next
    case 2
    then show ?thesis by (simp add: alloc_failed_def)
  qed
qed

theorem allocate_failure_state_witness:
  "heap_ok (ex_state\<lparr> avail := [False] \<rparr>) \<and>
   matrix_allocate (ex_state\<lparr> avail := [False] \<rparr>) 0 2 2
     = Some (- 1, alloc_null (ex_state\<lparr> avail := [False] \<rparr>) 0 2 2) \<and>
   (- 1 :: cint) \<noteq> 0 \<and>
   \<not> first_ok (ex_state\<lparr> avail := [False] \<rparr>) 2 \<and>
   rows (mats (alloc_null (ex_state\<lparr> avail := [False] \<rparr>) 0 2 2) 0) = 2 \<and>
   columns (mats (alloc_null (ex_state\<lparr> avail := [False] \<rparr>) 0 2 2) 0) = 2 \<and>
   content (mats (alloc_null (ex_state\<lparr> avail := [False] \<rparr>) 0 2 2) 0) = 0 \<and>
   heap (alloc_null (ex_state\<lparr> avail := [False] \<rparr>) 0 2 2) = heap (ex_state\<lparr> avail := [False] \<rparr>) \<and>
   matrix_free (alloc_null (ex_state\<lparr> avail := [False] \<rparr>) 0 2 2) 0 \<noteq> None"
proof -
  let ?s = "ex_state\<lparr> avail := [False] \<rparr>"
  have h: "heap_ok ?s" by (rule heap_ok_ex_state)
  have f: "\<not> first_ok ?s 2" by (simp add: first_ok_def)
  have a: "matrix_allocate ?s 0 2 2 = Some (- 1, alloc_null ?s 0 2 2)"
    using f by (rule matrix_allocate_null)
  have n: "(- 1 :: cint) \<noteq> 0" by simp
  from allocate_failure_state [OF h a n] f h a show ?thesis by auto
qed

section \<open>Tokens beyond the last column\<close>

lemma read_tokens_full:
  "\<not> sint col < sint cols \<Longrightarrow> read_tokens m row col cols str s = Some s"
proof (induction m row col cols str s rule: read_tokens.induct)
  case (1 m row col cols str s)
  show ?case
  proof (cases "strtok_r str")
    case None
    then show ?thesis by (subst read_tokens.simps) simp
  next
    case (Some p)
    obtain tok rest where p: "p = (tok, rest)" by (cases p)
    have "read_tokens m row col cols rest s = Some s"
      using "1.IH"(2) [OF Some p [symmetric]] "1.prems" by simp
    then show ?thesis using Some p "1.prems" by (subst read_tokens.simps) simp
  qed
qed

lemma sint_succ: "sint (col :: cint) < sint (cols :: cint) \<Longrightarrow> sint (col + 1) = sint col + 1"
proof -
  assume a: "sint col < sint cols"
  have "sint cols < 2 ^ 31" using sint_lt [of cols] by simp
  moreover have "- (2 ^ 31) \<le> sint col" using sint_ge [of col] by simp
  ultimately have "- (2 ^ 31) \<le> sint col + 1 \<and> sint col + 1 < 2 ^ 31" using a by simp
  then have "signed_take_bit 31 (sint col + 1) = sint col + 1"
    by (intro signed_take_bit_int_eq_self) simp_all
  then show ?thesis by (simp add: sint_word_ariths word_size)
qed

lemma read_tokens_put:
  "read_tokens m row col cols str s
     = put_tokens m row col (take (nat (sint cols - sint col)) (tokens str)) s"
proof (induction m row col cols str s rule: read_tokens.induct)
  case (1 m row col cols str s)
  show ?case
  proof (cases "strtok_r str")
    case None
    then show ?thesis by (subst read_tokens.simps, subst tokens.simps) simp
  next
    case (Some p)
    obtain tok rest where p: "p = (tok, rest)" by (cases p)
    have tk: "tokens str = tok # tokens rest" using Some p by (subst tokens.simps) simp
    show ?thesis
    proof (cases "sint col < sint cols")
      case False
      then have "read_tokens m row col cols str s = Some s" by (rule read_tokens_full)
      moreover have "nat (sint cols - sint col) = 0" using False by simp
      ultimately show ?thesis by simp
    next
      case True
      then have n: "nat (sint cols - sint col) = Suc (nat (sint cols - sint (col + 1)))"
        by (simp add: sint_succ)
      show ?thesis
      proof (cases "atoi tok")
        case None
        then show ?thesis using Some p True tk n by (subst read_tokens.simps) simp
      next
        case v: (Some v)
        show ?thesis
        proof (cases "set_cell s m (sint row) (sint col) v")
          case None
          then show ?thesis using Some p True tk n v by (subst read_tokens.simps) simp
        next
          case s1: (Some s1)
          have "read_tokens m row (col + 1) cols rest s1
              = put_tokens m row (col + 1) (take (nat (sint cols - sint (col + 1))) (tokens rest)) s1"
            using "1.IH"(1) [OF Some p [symmetric] True v s1] .
          then show ?thesis using Some p True tk n v s1 by (subst read_tokens.simps) simp
        qed
      qed
    qed
  qed
qed

text \<open>
  C8. In the second pass the token loop of a line, started at column 0, does what
  storing the first \<open>columns\<close> tokens of the line does, and nothing else: the tokens
  after them are neither converted nor stored. So two lines with the same first
  \<open>columns\<close> tokens have the same outcome, whatever follows on either: the excess
  tokens cannot make the parse fail.
\<close>

theorem excess_tokens_ignored:
  "read_tokens m row 0 cols line s = put_tokens m row 0 (take (bound cols) (tokens line)) s \<and>
   (take (bound cols) (tokens line) = take (bound cols) (tokens line') \<longrightarrow>
      read_tokens m row 0 cols line s = read_tokens m row 0 cols line' s)"
  using read_tokens_put [of m row 0 cols line s] read_tokens_put [of m row 0 cols line' s]
  by (simp add: bound_def)

theorem excess_tokens_ignored_witness:
  "take (bound 2) (tokens ''7 8 9 x'') = take (bound 2) (tokens ''7 8 junk'') \<and>
   read_tokens 4 0 0 2 ''7 8 9 x'' ex_state = read_tokens 4 0 0 2 ''7 8 junk'' ex_state \<and>
   read_tokens 4 0 0 2 ''7 8 9 x'' ex_state = put_tokens 4 0 0 [''7'', ''8''] ex_state \<and>
   map_option (\<lambda>t. (get_cell t 4 0 0, get_cell t 4 0 1)) (put_tokens 4 0 0 [''7'', ''8''] ex_state)
     = Some (Some 7, Some 8)"
proof -
  have b: "bound 2 = 2" by (simp add: bound_def)
  have t1: "take 2 (tokens ''7 8 9 x'') = [''7'', ''8'']" by code_simp
  have t2: "take 2 (tokens ''7 8 junk'') = [''7'', ''8'']" by code_simp
  have v: "map_option (\<lambda>t. (get_cell t 4 0 0, get_cell t 4 0 1)) (put_tokens 4 0 0 [''7'', ''8''] ex_state)
     = Some (Some 7, Some 8)"
    by code_simp
  note th = excess_tokens_ignored [of 4 0 2 "''7 8 9 x''" ex_state "''7 8 junk''"]
  have e: "take (bound 2) (tokens ''7 8 9 x'') = take (bound 2) (tokens ''7 8 junk'')"
    by (simp only: b t1 t2)
  from th e have r: "read_tokens 4 0 0 2 ''7 8 9 x'' ex_state = read_tokens 4 0 0 2 ''7 8 junk'' ex_state"
    by blast
  from th have p: "read_tokens 4 0 0 2 ''7 8 9 x'' ex_state = put_tokens 4 0 0 [''7'', ''8''] ex_state"
    by (simp only: b t1)
  from e r p v show ?thesis by (intro conjI)
qed

section \<open>Blank lines\<close>

lemma read_line_append:
  "a \<noteq> [] \<Longrightarrow> last a = newline \<Longrightarrow>
   read_line k (a @ b) = (fst (read_line k a), snd (read_line k a) @ b) \<and>
   (snd (read_line k a) = [] \<or> last (snd (read_line k a)) = newline)"
proof (induction k a rule: read_line.induct)
  case (1 cs)
  then show ?case by simp
next
  case (2 k)
  then show ?case by simp
next
  case (3 k c cs)
  show ?case
  proof (cases "c = newline")
    case True
    then show ?thesis using 3 by (cases cs) auto
  next
    case False
    then have cs: "cs \<noteq> []" "last cs = newline" using "3.prems" by (auto split: if_splits)
    from "3.IH" [OF False cs] False show ?thesis by (cases "read_line k cs") auto
  qed
qed

lemma fgets_append:
  assumes "a \<noteq> []" "last a = newline"
  shows "\<exists>l r. fgets 1024 a = Some (l, r) \<and> fgets 1024 (a @ b) = Some (l, r @ b) \<and>
           (r = [] \<or> last r = newline) \<and> length r < length a"
proof -
  obtain l r where lr: "read_line 1023 a = (l, r)" by (cases "read_line 1023 a")
  from read_line_append [OF assms, of 1023 b] lr
  have "read_line 1023 (a @ b) = (l, r @ b)" "r = [] \<or> last r = newline" by auto
  moreover have "fgets 1024 a = Some (l, r)" using assms(1) lr by (simp add: fgets_def)
  moreover from this have "length r < length a" by (rule fgets_shorter)
  ultimately show ?thesis using assms(1) by (simp add: fgets_def)
qed

lemma fgets_blank: "fgets 1024 (newline # b) = Some ([newline], b)"
  by (simp add: fgets_def eval_nat_numeral)

lemma c_str_blank: "c_str [newline] = [newline]"
  by (simp add: c_str_def newline_def NUL_def)

lemma first_pass_blank:
  "a = [] \<or> last a = newline \<Longrightarrow> first_pass (a @ newline # b) rws cols = first_pass (a @ b) rws cols"
proof (induction "length a" arbitrary: a rws cols rule: less_induct)
  case less
  show ?case
  proof (cases "a = []")
    case True
    then show ?thesis by (subst first_pass.simps) (simp add: fgets_blank c_str_blank)
  next
    case False
    with less.prems have la: "last a = newline" by simp
    from fgets_append [OF False la, of "newline # b"] fgets_append [OF False la, of b]
    obtain l r where f: "fgets 1024 (a @ newline # b) = Some (l, r @ newline # b)"
      "fgets 1024 (a @ b) = Some (l, r @ b)" "r = [] \<or> last r = newline" "length r < length a"
      by auto
    have ih: "first_pass (r @ newline # b) x y = first_pass (r @ b) x y" for x y
      using less.hyps [OF f(4) f(3)] .
    show ?thesis
      by (subst first_pass.simps, subst (2) first_pass.simps) (simp add: f ih Let_def)
  qed
qed

lemma second_pass_blank:
  "a = [] \<or> last a = newline \<Longrightarrow>
   second_pass m cols (a @ newline # b) row s = second_pass m cols (a @ b) row s"
proof (induction "length a" arbitrary: a row s rule: less_induct)
  case less
  show ?case
  proof (cases "a = []")
    case True
    then show ?thesis by (subst second_pass.simps) (simp add: fgets_blank c_str_blank)
  next
    case False
    with less.prems have la: "last a = newline" by simp
    from fgets_append [OF False la, of "newline # b"] fgets_append [OF False la, of b]
    obtain l r where f: "fgets 1024 (a @ newline # b) = Some (l, r @ newline # b)"
      "fgets 1024 (a @ b) = Some (l, r @ b)" "r = [] \<or> last r = newline" "length r < length a"
      by auto
    have ih: "second_pass m cols (r @ newline # b) x y = second_pass m cols (r @ b) x y" for x y
      using less.hyps [OF f(4) f(3)] .
    show ?thesis
      by (subst second_pass.simps, subst (2) second_pass.simps)
        (simp add: f ih Let_def cong: option.case_cong)
  qed
qed

lemma blank_added_passes:
  "blank_added t t' \<Longrightarrow>
   first_pass t' rws cols = first_pass t rws cols \<and>
   second_pass m c t' row s = second_pass m c t row s"
  by (induction rule: blank_added.induct) (simp_all add: first_pass_blank second_pass_blank)

text \<open>
  C7. A file whose text is that of another file with blank lines added between its
  rows is parsed by \<open>matrix_allocate_and_init_file\<close> with the same outcome: the same
  return code and the same state, so the same matrix. The blank lines count for no
  row and do not end the parse.
\<close>

theorem blank_lines_skipped:
  assumes "blank_added t t'" and "files s f = Some t" and "files s f' = Some t'"
  shows "matrix_allocate_and_init_file s m f' = matrix_allocate_and_init_file s m f"
proof -
  have 1: "first_pass t' 0 0 = first_pass t 0 0"
    using blank_added_passes [OF assms(1)] by simp
  have 2: "second_pass m c t' 0 u = second_pass m c t 0 u" for c u
    using blank_added_passes [OF assms(1)] by simp
  show ?thesis
    by (simp add: matrix_allocate_and_init_file_def assms(2,3) 1 2
        cong: prod.case_cong option.case_cong if_cong)
qed

lemma ex_text_first_pass: "first_pass ex_text 0 0 = (2, 2)"
  by code_simp

theorem blank_lines_skipped_witness:
  "blank_added ex_text ex_text_blank \<and>
   files io_state ''a.txt'' = Some ex_text \<and>
   files io_state ''b.txt'' = Some ex_text_blank \<and>
   matrix_allocate_and_init_file io_state 0 ''b.txt'' = matrix_allocate_and_init_file io_state 0 ''a.txt'' \<and>
   map_option (\<lambda>(rc, u). (rc, rows (mats u 0), columns (mats u 0),
                 [[get_cell u 0 0 0, get_cell u 0 0 1], [get_cell u 0 1 0, get_cell u 0 1 1]]))
     (matrix_allocate_and_init_file io_state 0 ''a.txt'')
     = Some (0, 2, 2, [[Some 1, Some 2], [Some 3, Some 4]])"
proof -
  have "blank_added ex_text ((''1 2'' @ [newline]) @ newline # (''3 4'' @ [newline]))"
    by (rule blank_added.add) (simp_all add: ex_text_def blank_added.same)
  then have b: "blank_added ex_text ex_text_blank" by (simp add: ex_text_blank_def)
  have fa: "files io_state ''a.txt'' = Some ex_text" by (simp add: io_state_def)
  have fb: "files io_state ''b.txt'' = Some ex_text_blank" by (simp add: io_state_def)
  have v: "map_option (\<lambda>(rc, u). (rc, rows (mats u 0), columns (mats u 0),
                 [[get_cell u 0 0 0, get_cell u 0 0 1], [get_cell u 0 1 0, get_cell u 0 1 1]]))
     (matrix_allocate_and_init_file io_state 0 ''a.txt'')
     = Some (0, 2, 2, [[Some 1, Some 2], [Some 3, Some 4]])"
    apply (simp add: matrix_allocate_and_init_file_def io_state_def ex_text_first_pass)
    apply (simp add: matrix_allocate_def ex_state_def init_state_def malloc_def Let_def size_mul_def
        to_size_t_def PTRDIFF_MAX_def bound_def alloc_rows.simps store_def)
    apply (simp add: second_pass.simps ex_text_def fgets_def newline_def c_str_def NUL_def
        read_tokens.simps strtok_r_def space_def atoi_def isspace_def isdigit_def set_cell_def
        get_cell_def load_ptr_def load_int_def load_def store_def eval_nat_numeral)
    done
  from blank_lines_skipped [OF b fa fb, of 0] b fa fb v show ?thesis by (intro conjI)
qed

section \<open>Writing a matrix and reading it back\<close>

lemma ex_dump: "dump_text ex_state 1 = Some (''1 2 3 '' @ [newline] @ ''4 5 6 '' @ [newline])"
  apply (simp add: dump_text_def dump_row_def ex_state_def ex_mats_def bound_def)
  apply (simp add: for_loop.simps dump_row_def dump_cell_def bound_def get_cell_def load_ptr_def load_int_def load_def
      ex_heap_def show_int_def show_nat.simps space_def newline_def)
  done

lemma ex_dump_first_pass: "first_pass (''1 2 3 '' @ [newline] @ ''4 5 6 '' @ [newline]) 0 0 = (2, 4)"
  by code_simp

text \<open>
  C1, on the matrix \<open>[[1,2,3],[4,5,6]]\<close>. \<open>matrix_dump_file\<close> writes a space after the
  last cell of a row, so the line ends with a space and a newline, and \<open>strtok_r\<close>,
  whose only delimiter is the space, returns the newline as one more token. The file is
  parsed into a matrix of 2 rows and 4 columns, \<open>[[1,2,3,0],[4,5,6,0]]\<close>, and
  \<open>matrix_equal\<close> says it differs from the matrix that was written.
\<close>

theorem round_trip_adds_column:
  "Option.bind (matrix_dump_file ex_state 1 ''m.txt'')
     (\<lambda>(rc, s1).
        map_option
          (\<lambda>(rc', s2).
             (rc, files s1 ''m.txt'', rc', rows (mats s2 0), columns (mats s2 0),
              map (\<lambda>i. map (\<lambda>j. get_cell s2 0 i j) [0, 1, 2, 3]) [0, 1],
              matrix_equal s2 0 1))
          (matrix_allocate_and_init_file s1 0 ''m.txt''))
   = Some (0, Some (''1 2 3 '' @ [newline] @ ''4 5 6 '' @ [newline]), 0, 2, 4,
           [[Some 1, Some 2, Some 3, Some 0], [Some 4, Some 5, Some 6, Some 0]],
           Some 0)"
proof -
  have w: "writable ex_state ''m.txt''" by (simp add: ex_state_def init_state_def)
  have d: "matrix_dump_file ex_state 1 ''m.txt''
      = Some (0, ex_state\<lparr> files := (files ex_state)
                 (''m.txt'' := Some (''1 2 3 '' @ [newline] @ ''4 5 6 '' @ [newline])) \<rparr>)"
    unfolding matrix_dump_file_def ex_dump using w by simp
  show ?thesis
    unfolding d
    apply (simp add: matrix_allocate_and_init_file_def)
    apply (simp add: ex_state_def init_state_def ex_dump_first_pass [simplified])
    apply (simp add: matrix_allocate_def malloc_def Let_def size_mul_def
        to_size_t_def PTRDIFF_MAX_def bound_def alloc_rows.simps store_def)
    apply (simp add: second_pass.simps fgets_def newline_def c_str_def NUL_def
        read_tokens.simps strtok_r_def space_def atoi_def isspace_def isdigit_def set_cell_def
        get_cell_def load_ptr_def load_int_def load_def store_def eval_nat_numeral)
    apply (simp add: matrix_equal_def ex_mats_def)
    done
qed

theorem round_trip_adds_column_witness:
  "map_option (\<lambda>x. (fst (snd (snd (snd (snd x)))), snd (snd (snd (snd (snd (snd x)))))))
     (Option.bind (matrix_dump_file ex_state 1 ''m.txt'')
        (\<lambda>(rc, s1).
           map_option
             (\<lambda>(rc', s2).
                (rc, files s1 ''m.txt'', rc', rows (mats s2 0), columns (mats s2 0),
                 map (\<lambda>i. map (\<lambda>j. get_cell s2 0 i j) [0, 1, 2, 3]) [0, 1],
                 matrix_equal s2 0 1))
             (matrix_allocate_and_init_file s1 0 ''m.txt'')))
   = Some (4, Some 0)"
  by (simp only: round_trip_adds_column option.map prod.sel)

section \<open>Reading and writing the cells of a matrix\<close>

lemma holds_the_rows: "holds s m ps C \<Longrightarrow> the_rows s m = ps"
  by (simp add: holds_def the_rows_def comp_def)

lemma holds_allocated: "holds s m ps C \<Longrightarrow> allocated s m"
proof -
  assume h: "holds s m ps C"
  then have r: "the_rows s m = ps" by (rule holds_the_rows)
  from h show ?thesis
    unfolding allocated_def r by (auto simp: holds_def list_all_length)
qed

lemma allocated_holds:
  "allocated s m \<Longrightarrow> holds s m (the_rows s m) (map (\<lambda>p. the (heap s p)) (the_rows s m))"
  by (auto simp: allocated_def holds_def list_all_length split: option.splits)

lemma initialised_iff:
  "initialised s m \<longleftrightarrow>
     (\<forall>i < bound (rows (mats s m)). \<forall>j < bound (columns (mats s m)).
        get_cell s m (int i) (int j) \<noteq> None)"
  by (auto simp: initialised_def list_all_iff)

lemma get_cell_holds:
  assumes "holds s m ps C" "i < length ps" "j < bound (columns (mats s m))"
  shows "get_cell s m (int i) (int j) = (case C ! i ! j of IntV v \<Rightarrow> Some v | _ \<Rightarrow> None)"
  using assms
  by (auto simp: holds_def get_cell_def load_ptr_def load_int_def load_def split: val.splits)

lemma set_cell_holds:
  assumes "holds s m ps C" "i < length ps" "j < bound (columns (mats s m))"
  shows "set_cell s m (int i) (int j) v
           = Some (s\<lparr> heap := (heap s)(ps ! i := Some ((C ! i)[j := IntV v])) \<rparr>)"
    and "holds (s\<lparr> heap := (heap s)(ps ! i := Some ((C ! i)[j := IntV v])) \<rparr>) m ps
           (C[i := (C ! i)[j := IntV v]])"
proof -
  from assms have c: "heap s (content (mats s m)) = Some (map PtrV ps)"
    and r: "heap s (ps ! i) = Some (C ! i)" "length (C ! i) = bound (columns (mats s m))"
    by (auto simp: holds_def)
  have "ps ! i \<in> set ps" using assms(2) by simp
  then have ne: "ps ! i \<noteq> content (mats s m)" using assms(1) by (auto simp: holds_def)
  show "set_cell s m (int i) (int j) v
           = Some (s\<lparr> heap := (heap s)(ps ! i := Some ((C ! i)[j := IntV v])) \<rparr>)"
    using assms(2,3) c r by (simp add: set_cell_def load_ptr_def load_def store_def)
  show "holds (s\<lparr> heap := (heap s)(ps ! i := Some ((C ! i)[j := IntV v])) \<rparr>) m ps
           (C[i := (C ! i)[j := IntV v]])"
    using assms ne
    by (auto simp: holds_def nth_list_update nth_eq_iff_index_eq)
qed

lemma writing_start: "holds s1 m ps C \<Longrightarrow> writing s1 m ps (\<lambda>_. None) s1"
  unfolding writing_def
  by (rule exI [of _ "heap s1"], rule exI [of _ C]) (auto simp: holds_def in_set_conv_nth)

lemma writing_fields:
  "writing s1 m ps F t \<Longrightarrow>
     mats t = mats s1 \<and> brk t = brk s1 \<and> avail t = avail s1 \<and> files t = files s1 \<and>
     writable t = writable s1 \<and> (\<forall>a. a \<notin> set ps \<longrightarrow> heap t a = heap s1 a)"
  by (auto simp: writing_def)

lemma writing_read:
  "writing s1 m ps F t \<Longrightarrow> F (i, j) = Some v \<Longrightarrow> get_cell t m (int i) (int j) = Some v"
proof -
  assume w: "writing s1 m ps F t" and f: "F (i, j) = Some v"
  from w obtain h C where t: "t = s1\<lparr> heap := h \<rparr>" and hd: "holds t m ps C"
    and F: "\<forall>i j v. F (i, j) = Some v \<longrightarrow>
               i < length ps \<and> j < bound (columns (mats s1 m)) \<and> C ! i ! j = IntV v"
    unfolding writing_def by blast
  from F f have b: "i < length ps" "j < bound (columns (mats s1 m))" "C ! i ! j = IntV v" by auto
  have "mats t = mats s1" using t by simp
  with get_cell_holds [OF hd b(1)] b show ?thesis by simp
qed

lemma writing_write:
  assumes "writing s1 m ps F t" "i < bound (rows (mats s1 m))" "j < bound (columns (mats s1 m))"
  shows "\<exists>t'. set_cell t m (int i) (int j) v = Some t' \<and> writing s1 m ps (F((i, j) := Some v)) t'"
proof -
  from assms(1) obtain h C where t: "t = s1\<lparr> heap := h \<rparr>"
    and out: "\<forall>a. a \<notin> set ps \<longrightarrow> h a = heap s1 a"
    and live: "\<forall>p \<in> set ps. heap s1 p \<noteq> None"
    and hd: "holds t m ps C"
    and F: "\<forall>i j v. F (i, j) = Some v \<longrightarrow>
               i < length ps \<and> j < bound (columns (mats s1 m)) \<and> C ! i ! j = IntV v"
    unfolding writing_def by blast
  have mt: "mats t = mats s1" using t by simp
  have i: "i < length ps" using hd assms(2) mt by (simp add: holds_def)
  have j: "j < bound (columns (mats t m))" using assms(3) mt by simp
  have len: "length C = length ps" "length (C ! i) = bound (columns (mats s1 m))"
    using hd i mt by (auto simp: holds_def)
  let ?h = "h(ps ! i := Some ((C ! i)[j := IntV v]))"
  let ?t = "s1\<lparr> heap := ?h \<rparr>"
  have eq: "t\<lparr> heap := (heap t)(ps ! i := Some ((C ! i)[j := IntV v])) \<rparr> = ?t"
    using t by simp
  have 1: "set_cell t m (int i) (int j) v = Some ?t"
    using set_cell_holds(1) [OF hd i j, of v] eq by simp
  have 2: "holds ?t m ps (C[i := (C ! i)[j := IntV v]])"
    using set_cell_holds(2) [OF hd i j, of v] eq by simp
  have 3: "\<forall>a. a \<notin> set ps \<longrightarrow> ?h a = heap s1 a" using out i by auto
  have 4: "\<forall>i' j' v'. (F((i, j) := Some v)) (i', j') = Some v' \<longrightarrow>
               i' < length ps \<and> j' < bound (columns (mats s1 m)) \<and>
               (C[i := (C ! i)[j := IntV v]]) ! i' ! j' = IntV v'"
    using F i assms(3) len by (auto simp: nth_list_update)
  have "writing s1 m ps (F((i, j) := Some v)) ?t"
    unfolding writing_def
    by (rule exI [of _ ?h], rule exI [of _ "C[i := (C ! i)[j := IntV v]]"]) (use 2 3 4 live in simp)
  with 1 show ?thesis by blast
qed

lemma writing_weaken:
  "writing s1 m ps F t \<Longrightarrow> (\<And>x v. G x = Some v \<Longrightarrow> F x = Some v) \<Longrightarrow> writing s1 m ps G t"
  unfolding writing_def by (elim exE conjE, intro exI conjI) (assumption | blast)+

lemma writing_allocated: "writing s1 m ps F t \<Longrightarrow> allocated t m"
  by (auto simp: writing_def intro: holds_allocated)

lemma writing_heap_ok: "writing s1 m ps F t \<Longrightarrow> heap_ok s1 \<Longrightarrow> heap_ok t"
proof -
  assume w: "writing s1 m ps F t" and ok: "heap_ok s1"
  from w obtain h where t: "t = s1\<lparr> heap := h \<rparr>"
    and out: "\<forall>a. a \<notin> set ps \<longrightarrow> h a = heap s1 a"
    and live: "\<forall>p \<in> set ps. heap s1 p \<noteq> None"
    unfolding writing_def by blast
  have "heap s1 a \<noteq> None" if "h a \<noteq> None" for a
    using that out live by (cases "a \<in> set ps") auto
  then show ?thesis using ok unfolding heap_ok_def t by auto
qed

lemma get_cell_frame:
  assumes "frame s s' r" "m \<noteq> r" "get_cell s m i j = Some v"
  shows "get_cell s' m i j = Some v"
proof -
  from assms(1,2) have m: "mats s' m = mats s m" by (simp add: frame_def)
  from assms(3) obtain blk q where c: "heap s (content (mats s m)) = Some blk"
    and p: "load_ptr s (content (mats s m)) i = Some q" and q: "load_int s q j = Some v"
    by (auto simp: get_cell_def load_ptr_def load_def split: option.splits)
  from q obtain row where r: "heap s q = Some row"
    by (auto simp: load_int_def load_def split: option.splits)
  have 1: "heap s' (content (mats s m)) = heap s (content (mats s m))"
    using assms(1) c by (simp add: frame_def)
  have 2: "heap s' q = heap s q" using assms(1) r by (simp add: frame_def)
  have "load_ptr s' (content (mats s m)) i = Some q" using p 1 by (simp add: load_ptr_def load_def)
  moreover have "load_int s' q j = Some v" using q 2 by (simp add: load_int_def load_def)
  ultimately show ?thesis by (simp add: get_cell_def m)
qed

lemma frame_alloc_state: "heap_ok s \<Longrightarrow> frame s (alloc_state s r rr cc n) r"
  by (auto simp: frame_def alloc_state_def heap_ok_def)

lemma holds_alloc_state:
  assumes "0 \<le> sint rr" "0 \<le> sint cc"
  shows "holds (alloc_state s r rr cc (bound rr)) r [Suc (brk s) ..< Suc (brk s) + bound rr]
           (replicate (bound rr) (replicate (bound cc) Undef))"
proof -
  let ?ps = "[Suc (brk s) ..< Suc (brk s) + bound rr]"
  have n: "?ps ! k = Suc (brk s) + k" if "k < bound rr" for k
    using that by (simp del: upt_Suc)
  show ?thesis
    using assms ptr_cells_bound [OF assms(1)] row_cells_bound [OF assms(2)] n
    by (auto simp: holds_def alloc_state_def simp del: upt_Suc)
qed

lemma writing_frame:
  assumes "writing s1 r ps F t" "frame s s1 r" "\<forall>p \<in> set ps. heap s p = None"
  shows "frame s t r"
proof -
  from writing_fields [OF assms(1)]
  have m: "mats t = mats s1" and h: "\<forall>a. a \<notin> set ps \<longrightarrow> heap t a = heap s1 a" by auto
  have "heap t a = heap s a" if "heap s a \<noteq> None" for a
  proof -
    from that assms(3) have "a \<notin> set ps" by auto
    with h have "heap t a = heap s1 a" by simp
    also have "\<dots> = heap s a" using assms(2) that by (simp add: frame_def)
    finally show ?thesis .
  qed
  then show ?thesis using assms(2) m by (simp add: frame_def)
qed

lemma known_insert: "(known f D)(x := Some (f x)) = known f (insert x D)"
  by (auto simp: known_def fun_eq_iff)

lemma known_empty: "known f {} = (\<lambda>_. None)"
  by (simp add: known_def)

section \<open>Loops that fill a matrix\<close>

lemma for_loop_collect:
  assumes "W D0 s"
    and "\<And>k t D. k < n \<Longrightarrow> W D t \<Longrightarrow> \<exists>t'. body k t = Some t' \<and> W (D \<union> E k) t'"
  shows "\<exists>s'. for_loop 0 n body s = Some s' \<and> W (D0 \<union> (\<Union>k < n. E k)) s'"
proof (rule for_loop_inv [where I = "\<lambda>k t. W (D0 \<union> (\<Union>j < k. E j)) t"])
  show "W (D0 \<union> (\<Union>j < 0. E j)) s" using assms(1) by simp
  show "0 \<le> n" by simp
  fix k t
  assume k: "k < n" and w: "W (D0 \<union> (\<Union>j < k. E j)) t"
  from assms(2) [OF k w] obtain t' where t': "body k t = Some t'"
    "W (D0 \<union> (\<Union>j < k. E j) \<union> E k) t'" by blast
  have "D0 \<union> (\<Union>j < k. E j) \<union> E k = D0 \<union> (\<Union>j < Suc k. E j)"
    by (auto simp: less_Suc_eq)
  with t' show "\<exists>t'. body k t = Some t' \<and> W (D0 \<union> (\<Union>j < Suc k. E j)) t'" by auto
qed

lemma double_loop:
  assumes "W {} s"
    and "\<And>i j t D. i < n \<Longrightarrow> j < c \<Longrightarrow> W D t \<Longrightarrow>
           \<exists>t'. body i j t = Some t' \<and> W (insert (g i j) D) t'"
  shows "\<exists>s'. for_loop 0 n (\<lambda>i. for_loop 0 c (body i)) s = Some s' \<and>
           W {g i j | i j. i < n \<and> j < c} s'"
proof -
  have inner: "\<exists>t'. for_loop 0 c (body i) t = Some t' \<and> W (D \<union> (\<Union>j < c. {g i j})) t'"
    if "i < n" "W D t" for i t D
  proof (rule for_loop_collect [where W = W and E = "\<lambda>j. {g i j}", OF that(2)])
    fix j u D'
    assume "j < c" "W D' u"
    from assms(2) [OF that(1) this] show "\<exists>t'. body i j u = Some t' \<and> W (D' \<union> {g i j}) t'"
      by simp
  qed
  have "\<exists>s'. for_loop 0 n (\<lambda>i. for_loop 0 c (body i)) s = Some s' \<and>
          W ({} \<union> (\<Union>i < n. \<Union>j < c. {g i j})) s'"
    by (rule for_loop_collect [where W = W, OF assms(1)]) (rule inner)
  moreover have "{} \<union> (\<Union>i < n. \<Union>j < c. {g i j}) = {g i j | i j. i < n \<and> j < c}" by auto
  ultimately show ?thesis by simp
qed

lemma fresh_result:
  assumes "heap_ok s" "0 \<le> sint rr" "0 \<le> sint cc"
    and "writing (alloc_state s r rr cc (bound rr)) r [Suc (brk s) ..< Suc (brk s) + bound rr]
           (known f {(i, j). i < bound rr \<and> j < bound cc}) t"
  shows "result_is s t r rr cc f"
proof -
  let ?s1 = "alloc_state s r rr cc (bound rr)"
  let ?ps = "[Suc (brk s) ..< Suc (brk s) + bound rr]"
  note fl = writing_fields [OF assms(4)]
  have m: "mats t r = mats ?s1 r" using fl by simp
  have 1: "rows (mats t r) = rr" "columns (mats t r) = cc" unfolding m by (simp_all add: alloc_state_def)
  have 2: "get_cell t r (int i) (int j) = Some (f (i, j))" if "i < bound rr" "j < bound cc" for i j
    by (rule writing_read [OF assms(4)]) (use that in \<open>simp add: known_def\<close>)
  have 3: "allocated t r" using assms(4) by (rule writing_allocated)
  have "\<forall>p \<in> set ?ps. heap s p = None" using assms(1) by (auto simp: heap_ok_def)
  then have 4: "frame s t r" by (rule writing_frame [OF assms(4) frame_alloc_state [OF assms(1)]])
  have 5: "heap_ok t" by (rule writing_heap_ok [OF assms(4) heap_ok_alloc_state [OF assms(1)]])
  have 6: "avail t = drop (Suc (bound rr)) (avail s)" using fl by (simp add: alloc_state_def)
  from 1 2 3 4 5 6 show ?thesis by (simp add: result_is_def)
qed

lemma initialised_cell:
  "initialised s m \<Longrightarrow> i < bound (rows (mats s m)) \<Longrightarrow> j < bound (columns (mats s m)) \<Longrightarrow>
     get_cell s m (int i) (int j) = Some (cell s m i j)"
  by (auto simp: initialised_iff cell_def)

lemma fill_fresh:
  assumes "heap_ok s" "0 \<le> sint rr" "0 \<le> sint cc"
    and step: "\<And>i j t D. i < N \<Longrightarrow> j < M \<Longrightarrow>
       writing (alloc_state s r rr cc (bound rr)) r [Suc (brk s) ..< Suc (brk s) + bound rr] (known f D) t \<Longrightarrow>
       frame s t r \<Longrightarrow>
       \<exists>t'. body i j t = Some t' \<and>
         writing (alloc_state s r rr cc (bound rr)) r [Suc (brk s) ..< Suc (brk s) + bound rr]
           (known f (insert (g i j) D)) t'"
    and cover: "{g i j | i j. i < N \<and> j < M} = {(i, j). i < bound rr \<and> j < bound cc}"
  shows "\<exists>s'. for_loop 0 N (\<lambda>i. for_loop 0 M (body i)) (alloc_state s r rr cc (bound rr)) = Some s' \<and>
           result_is s s' r rr cc f"
proof -
  let ?s1 = "alloc_state s r rr cc (bound rr)"
  let ?ps = "[Suc (brk s) ..< Suc (brk s) + bound rr]"
  let ?W = "\<lambda>D t. writing ?s1 r ?ps (known f D) t"
  have fresh: "\<forall>p \<in> set ?ps. heap s p = None" using assms(1) by (auto simp: heap_ok_def)
  have fr: "frame s t r" if "?W D t" for D t
    by (rule writing_frame [OF that frame_alloc_state [OF assms(1)] fresh])
  have start: "?W {} ?s1"
    using writing_start [OF holds_alloc_state [OF assms(2,3)]] by (simp add: known_empty)
  have "\<exists>s'. for_loop 0 N (\<lambda>i. for_loop 0 M (body i)) ?s1 = Some s' \<and>
           ?W {g i j | i j. i < N \<and> j < M} s'"
  proof (rule double_loop [where W = ?W, OF start])
    fix i j t D
    assume "i < N" "j < M" "?W D t"
    then show "\<exists>t'. body i j t = Some t' \<and> ?W (insert (g i j) D) t'"
      using step fr by blast
  qed
  then obtain s' where s': "for_loop 0 N (\<lambda>i. for_loop 0 M (body i)) ?s1 = Some s'"
    "?W {(i, j). i < bound rr \<and> j < bound cc} s'"
    unfolding cover by blast
  from s'(1) fresh_result [OF assms(1,2,3) s'(2)] show ?thesis by blast
qed

lemma alloc_state_other: "m \<noteq> r \<Longrightarrow> mats (alloc_state s r rr cc n) m = mats s m"
  by (simp add: alloc_state_def)

section \<open>Sum\<close>

lemma sum_cell_step:
  assumes "writing s1 r ps (known f D) t" "frame s t r" "m1 \<noteq> r" "m2 \<noteq> r"
    and "i < bound (rows (mats s1 r))" "j < bound (columns (mats s1 r))"
    and "get_cell s m1 (int i) (int j) = Some a" "get_cell s m2 (int i) (int j) = Some b"
    and "f (i, j) = a + b"
  shows "\<exists>t'. sum_cell m1 m2 r i j t = Some t' \<and> writing s1 r ps (known f (insert (i, j) D)) t'"
proof -
  have a: "get_cell t m1 (int i) (int j) = Some a" by (rule get_cell_frame [OF assms(2,3,7)])
  have b: "get_cell t m2 (int i) (int j) = Some b" by (rule get_cell_frame [OF assms(2,4,8)])
  from writing_write [OF assms(1,5,6), of "a + b"] a b assms(9) show ?thesis
    by (simp add: sum_cell_def known_insert [symmetric])
qed

lemma matrix_sum_ok:
  assumes "heap_ok s" "is_matrix s m1" "is_matrix s m2" "result \<noteq> m1" "result \<noteq> m2"
    and "rows (mats s m1) = rows (mats s m2)" "columns (mats s m1) = columns (mats s m2)"
    and "mem (Suc (bound (rows (mats s m1)))) s"
  shows "\<exists>s'. matrix_sum s m1 m2 result = Some (0, s') \<and>
           result_is s s' result (rows (mats s m1)) (columns (mats s m1))
             (\<lambda>(i, j). cell s m1 i j + cell s m2 i j)"
proof -
  let ?rr = "rows (mats s m1)" and ?cc = "columns (mats s m1)"
  let ?s1 = "alloc_state s result ?rr ?cc (bound ?rr)"
  let ?f = "\<lambda>(i, j). cell s m1 i j + cell s m2 i j"
  from assms(2) have nn: "0 \<le> sint ?rr" "0 \<le> sint ?cc" and i1: "initialised s m1"
    by (auto simp: is_matrix_def allocated_def)
  from assms(3) have i2: "initialised s m2" by (simp add: is_matrix_def)
  have al: "matrix_allocate s result ?rr ?cc = Some (0, ?s1)"
    by (rule matrix_allocate_ok [OF assms(1) nn assms(8)])
  have d: "mats ?s1 m1 = mats s m1" using assms(4) by (simp add: alloc_state_other)
  have "\<exists>s'. for_loop 0 (bound ?rr) (\<lambda>i. for_loop 0 (bound ?cc) (sum_cell m1 m2 result i)) ?s1 = Some s' \<and>
           result_is s s' result ?rr ?cc ?f"
  proof (rule fill_fresh [where g = Pair, OF assms(1) nn])
    fix i j t D
    assume ij: "i < bound ?rr" "j < bound ?cc"
      and w: "writing ?s1 result [Suc (brk s) ..< Suc (brk s) + bound ?rr] (known ?f D) t"
      and fr: "frame s t result"
    show "\<exists>t'. sum_cell m1 m2 result i j t = Some t' \<and>
        writing ?s1 result [Suc (brk s) ..< Suc (brk s) + bound ?rr] (known ?f (insert (i, j) D)) t'"
    proof (rule sum_cell_step [OF w fr])
      show "m1 \<noteq> result" "m2 \<noteq> result" using assms(4,5) by auto
      show "i < bound (rows (mats ?s1 result))" "j < bound (columns (mats ?s1 result))"
        using ij by (simp_all add: alloc_state_def)
      show "get_cell s m1 (int i) (int j) = Some (cell s m1 i j)"
        using ij by (intro initialised_cell [OF i1])
      show "get_cell s m2 (int i) (int j) = Some (cell s m2 i j)"
        using ij assms(6,7) by (intro initialised_cell [OF i2]) simp_all
      show "?f (i, j) = cell s m1 i j + cell s m2 i j" by simp
    qed
  qed auto
  then show ?thesis using al d assms(6,7) by (auto simp: matrix_sum_def)
qed

lemma matrix_allocate_no_mem:
  "heap_ok s \<Longrightarrow> \<not> mem (Suc (bound r)) s \<Longrightarrow> \<exists>s'. matrix_allocate s m r c = Some (- 1, s')"
  using matrix_allocate_cases [of s m r c] by auto

section \<open>Scalar product and transposition\<close>

lemma scalar_cell_step:
  assumes "writing s1 r ps (known f D) t" "frame s t r" "m \<noteq> r"
    and "i < bound (rows (mats s1 r))" "j < bound (columns (mats s1 r))"
    and "get_cell s m (int i) (int j) = Some a"
    and "f (i, j) = a * k"
  shows "\<exists>t'. scalar_cell m k r i j t = Some t' \<and> writing s1 r ps (known f (insert (i, j) D)) t'"
proof -
  have a: "get_cell t m (int i) (int j) = Some a" by (rule get_cell_frame [OF assms(2,3,6)])
  from writing_write [OF assms(1,4,5), of "a * k"] a assms(7) show ?thesis
    by (simp add: scalar_cell_def known_insert [symmetric])
qed

lemma matrix_scalar_product_ok:
  assumes "heap_ok s" "is_matrix s m" "result \<noteq> m" "mem (Suc (bound (rows (mats s m)))) s"
  shows "\<exists>s'. matrix_scalar_product s m k result = Some (0, s') \<and>
           result_is s s' result (rows (mats s m)) (columns (mats s m)) (\<lambda>(i, j). cell s m i j * k)"
proof -
  let ?rr = "rows (mats s m)" and ?cc = "columns (mats s m)"
  let ?s1 = "alloc_state s result ?rr ?cc (bound ?rr)"
  let ?f = "\<lambda>(i, j). cell s m i j * k"
  from assms(2) have nn: "0 \<le> sint ?rr" "0 \<le> sint ?cc" and i1: "initialised s m"
    by (auto simp: is_matrix_def allocated_def)
  have al: "matrix_allocate s result ?rr ?cc = Some (0, ?s1)"
    by (rule matrix_allocate_ok [OF assms(1) nn assms(4)])
  have d: "mats ?s1 m = mats s m" using assms(3) by (simp add: alloc_state_other)
  have "\<exists>s'. for_loop 0 (bound ?rr) (\<lambda>i. for_loop 0 (bound ?cc) (scalar_cell m k result i)) ?s1 = Some s' \<and>
           result_is s s' result ?rr ?cc ?f"
  proof (rule fill_fresh [where g = Pair, OF assms(1) nn])
    fix i j t D
    assume ij: "i < bound ?rr" "j < bound ?cc"
      and w: "writing ?s1 result [Suc (brk s) ..< Suc (brk s) + bound ?rr] (known ?f D) t"
      and fr: "frame s t result"
    show "\<exists>t'. scalar_cell m k result i j t = Some t' \<and>
        writing ?s1 result [Suc (brk s) ..< Suc (brk s) + bound ?rr] (known ?f (insert (i, j) D)) t'"
    proof (rule scalar_cell_step [OF w fr])
      show "m \<noteq> result" using assms(3) by auto
      show "i < bound (rows (mats ?s1 result))" "j < bound (columns (mats ?s1 result))"
        using ij by (simp_all add: alloc_state_def)
      show "get_cell s m (int i) (int j) = Some (cell s m i j)"
        using ij by (intro initialised_cell [OF i1])
      show "?f (i, j) = cell s m i j * k" by simp
    qed
  qed auto
  then show ?thesis using al d by (auto simp: matrix_scalar_product_def)
qed

lemma transpose_cell_step:
  assumes "writing s1 r ps (known f D) t" "frame s t r" "m \<noteq> r"
    and "j < bound (rows (mats s1 r))" "i < bound (columns (mats s1 r))"
    and "get_cell s m (int i) (int j) = Some a"
    and "f (j, i) = a"
  shows "\<exists>t'. transpose_cell m r i j t = Some t' \<and> writing s1 r ps (known f (insert (j, i) D)) t'"
proof -
  have a: "get_cell t m (int i) (int j) = Some a" by (rule get_cell_frame [OF assms(2,3,6)])
  from writing_write [OF assms(1,4,5), of a] a assms(7) show ?thesis
    by (simp add: transpose_cell_def known_insert [symmetric])
qed

lemma matrix_transposition_ok:
  assumes "heap_ok s" "is_matrix s m" "result \<noteq> m" "mem (Suc (bound (columns (mats s m)))) s"
  shows "\<exists>s'. matrix_transposition s m result = Some (0, s') \<and>
           result_is s s' result (columns (mats s m)) (rows (mats s m)) (\<lambda>(j, i). cell s m i j)"
proof -
  let ?rr = "columns (mats s m)" and ?cc = "rows (mats s m)"
  let ?s1 = "alloc_state s result ?rr ?cc (bound ?rr)"
  let ?f = "\<lambda>(j, i). cell s m i j"
  from assms(2) have nn: "0 \<le> sint ?rr" "0 \<le> sint ?cc" and i1: "initialised s m"
    by (auto simp: is_matrix_def allocated_def)
  have al: "matrix_allocate s result ?rr ?cc = Some (0, ?s1)"
    by (rule matrix_allocate_ok [OF assms(1) nn assms(4)])
  have d: "mats ?s1 m = mats s m" using assms(3) by (simp add: alloc_state_other)
  have "\<exists>s'. for_loop 0 (bound ?cc) (\<lambda>i. for_loop 0 (bound ?rr) (transpose_cell m result i)) ?s1 = Some s' \<and>
           result_is s s' result ?rr ?cc ?f"
  proof (rule fill_fresh [where g = "\<lambda>i j. (j, i)", OF assms(1) nn])
    fix i j t D
    assume ij: "i < bound ?cc" "j < bound ?rr"
      and w: "writing ?s1 result [Suc (brk s) ..< Suc (brk s) + bound ?rr] (known ?f D) t"
      and fr: "frame s t result"
    show "\<exists>t'. transpose_cell m result i j t = Some t' \<and>
        writing ?s1 result [Suc (brk s) ..< Suc (brk s) + bound ?rr] (known ?f (insert (j, i) D)) t'"
    proof (rule transpose_cell_step [OF w fr])
      show "m \<noteq> result" using assms(3) by auto
      show "j < bound (rows (mats ?s1 result))" "i < bound (columns (mats ?s1 result))"
        using ij by (simp_all add: alloc_state_def)
      show "get_cell s m (int i) (int j) = Some (cell s m i j)"
        using ij by (intro initialised_cell [OF i1])
      show "?f (j, i) = cell s m i j" by simp
    qed
  qed auto
  then show ?thesis using al d by (auto simp: matrix_transposition_def)
qed

section \<open>Product\<close>

lemma dot_Suc: "dot s m1 m2 i j (Suc k) = dot s m1 m2 i j k + cell s m1 i k * cell s m2 k j"
  by (simp add: dot_def)

lemma dot_0: "dot s m1 m2 i j 0 = 0"
  by (simp add: dot_def)

lemma product_cell_step:
  assumes w: "writing s1 r ps (known f D) t"
    and fr: "frame s s1 r" and fresh: "\<forall>p \<in> set ps. heap s p = None"
    and ne: "m1 \<noteq> r" "m2 \<noteq> r"
    and ij: "i < bound (rows (mats s1 r))" "j < bound (columns (mats s1 r))"
    and K: "bound (columns (mats s1 m1)) = K"
    and a: "\<And>k. k < K \<Longrightarrow> get_cell s m1 (int i) (int k) = Some (cell s m1 i k)"
    and b: "\<And>k. k < K \<Longrightarrow> get_cell s m2 (int k) (int j) = Some (cell s m2 k j)"
    and f: "f (i, j) = dot s m1 m2 i j K"
  shows "\<exists>t'. product_cell m1 m2 r i j t = Some t' \<and> writing s1 r ps (known f (insert (i, j) D)) t'"
proof -
  let ?F = "\<lambda>k. (known f D)((i, j) := Some (dot s m1 m2 i j k))"
  from writing_write [OF w ij, of 0] obtain t1 where t1: "set_cell t r (int i) (int j) 0 = Some t1"
    "writing s1 r ps (?F 0) t1" by (auto simp: dot_0)
  have m1: "mats t1 = mats s1" using writing_fields [OF t1(2)] by simp
  have "\<exists>t'. for_loop 0 K (product_term m1 m2 r i j) t1 = Some t' \<and> writing s1 r ps (?F K) t'"
  proof (rule for_loop_inv [where I = "\<lambda>k u. writing s1 r ps (?F k) u"])
    show "writing s1 r ps (?F 0) t1" by (rule t1)
    show "0 \<le> K" by simp
    fix k u
    assume k: "k < K" and u: "writing s1 r ps (?F k) u"
    have fu: "frame s u r" by (rule writing_frame [OF u fr fresh])
    have ga: "get_cell u m1 (int i) (int k) = Some (cell s m1 i k)"
      by (rule get_cell_frame [OF fu ne(1) a [OF k]])
    have gb: "get_cell u m2 (int k) (int j) = Some (cell s m2 k j)"
      by (rule get_cell_frame [OF fu ne(2) b [OF k]])
    have gr: "get_cell u r (int i) (int j) = Some (dot s m1 m2 i j k)"
      by (rule writing_read [OF u]) simp
    from writing_write [OF u ij, of "dot s m1 m2 i j k + cell s m1 i k * cell s m2 k j"]
    obtain u' where u': "set_cell u r (int i) (int j) (dot s m1 m2 i j k + cell s m1 i k * cell s m2 k j) = Some u'"
      "writing s1 r ps (?F (Suc k)) u'"
      by (auto simp: dot_Suc)
    show "\<exists>t'. product_term m1 m2 r i j k u = Some t' \<and> writing s1 r ps (?F (Suc k)) t'"
      using ga gb gr u' by (simp add: product_term_def)
  qed
  then obtain t' where t': "for_loop 0 K (product_term m1 m2 r i j) t1 = Some t'"
    "writing s1 r ps (?F K) t'" by blast
  have "?F K = known f (insert (i, j) D)" using f by (simp add: known_insert [symmetric])
  with t' t1(1) m1 K show ?thesis by (simp add: product_cell_def)
qed

lemma matrix_product_ok:
  assumes "heap_ok s" "is_matrix s m1" "is_matrix s m2" "result \<noteq> m1" "result \<noteq> m2"
    and "columns (mats s m1) = rows (mats s m2)"
    and "mem (Suc (bound (rows (mats s m1)))) s"
  shows "\<exists>s'. matrix_product s m1 m2 result = Some (0, s') \<and>
           result_is s s' result (rows (mats s m1)) (columns (mats s m2))
             (\<lambda>(i, j). dot s m1 m2 i j (bound (columns (mats s m1))))"
proof -
  let ?rr = "rows (mats s m1)" and ?cc = "columns (mats s m2)"
  let ?K = "bound (columns (mats s m1))"
  let ?s1 = "alloc_state s result ?rr ?cc (bound ?rr)"
  let ?ps = "[Suc (brk s) ..< Suc (brk s) + bound ?rr]"
  let ?f = "\<lambda>(i, j). dot s m1 m2 i j ?K"
  from assms(2) have n1: "0 \<le> sint ?rr" and i1: "initialised s m1"
    by (auto simp: is_matrix_def allocated_def)
  from assms(3) have n2: "0 \<le> sint ?cc" and i2: "initialised s m2"
    by (auto simp: is_matrix_def allocated_def)
  have al: "matrix_allocate s result ?rr ?cc = Some (0, ?s1)"
    by (rule matrix_allocate_ok [OF assms(1) n1 n2 assms(7)])
  have d: "mats ?s1 m1 = mats s m1" "mats ?s1 m2 = mats s m2"
    using assms(4,5) by (simp_all add: alloc_state_other)
  have fresh: "\<forall>p \<in> set ?ps. heap s p = None" using assms(1) by (auto simp: heap_ok_def)
  have "\<exists>s'. for_loop 0 (bound ?rr) (\<lambda>i. for_loop 0 (bound ?cc) (product_cell m1 m2 result i)) ?s1 = Some s' \<and>
           result_is s s' result ?rr ?cc ?f"
  proof (rule fill_fresh [where g = Pair, OF assms(1) n1 n2])
    fix i j t D
    assume ij: "i < bound ?rr" "j < bound ?cc"
      and w: "writing ?s1 result ?ps (known ?f D) t"
    show "\<exists>t'. product_cell m1 m2 result i j t = Some t' \<and>
        writing ?s1 result ?ps (known ?f (insert (i, j) D)) t'"
    proof (rule product_cell_step [OF w frame_alloc_state [OF assms(1)] fresh])
      show "m1 \<noteq> result" "m2 \<noteq> result" using assms(4,5) by auto
      show "i < bound (rows (mats ?s1 result))" "j < bound (columns (mats ?s1 result))"
        using ij by (simp_all add: alloc_state_def)
      show "bound (columns (mats ?s1 m1)) = ?K" by (simp add: d)
      show "get_cell s m1 (int i) (int k) = Some (cell s m1 i k)" if "k < ?K" for k
        using ij that by (intro initialised_cell [OF i1])
      show "get_cell s m2 (int k) (int j) = Some (cell s m2 k j)" if "k < ?K" for k
        using ij that assms(6) by (intro initialised_cell [OF i2]) simp_all
      show "?f (i, j) = dot s m1 m2 i j ?K" by simp
    qed
  qed auto
  then show ?thesis using al d assms(6) by (auto simp: matrix_product_def)
qed

section \<open>The specifications of sum and product\<close>

lemma ex_heap_ok: "heap_ok ex_state"
  using heap_ok_ex_state [of "avail ex_state"] by simp

lemma upt_small: "[0 ..< 2] = [0, 1]" "[0 ..< 3] = [0, 1, 2]"
  by (simp_all add: numeral_2_eq_2 numeral_3_eq_3)

lemma ex_is_matrix: "is_matrix ex_state 1" "is_matrix ex_state 2" "is_matrix ex_state 3"
  unfolding is_matrix_def allocated_def initialised_def the_rows_def
  by (simp_all add: ex_state_def ex_mats_def ex_heap_def bound_def upt_small
      get_cell_def load_ptr_def load_int_def load_def)

lemma ex_mem: "mem 3 ex_state" "mem 4 ex_state"
  by (simp_all add: mem_def ex_state_def eval_nat_numeral)

text \<open>
  C4. For matrices \<open>m1\<close> and \<open>m2\<close> and a result object that is neither of them:
  \<open>matrix_sum\<close> returns \<open>-1\<close>, with nothing changed, when the dimensions differ; when
  they are the same and there is memory for the result, it returns 0 and the result
  has the rows and columns of \<open>m1\<close> and the cells \<open>m1[i][j] + m2[i][j]\<close>.
\<close>

theorem matrix_sum_spec:
  assumes "heap_ok s" and "is_matrix s m1" and "is_matrix s m2"
    and "result \<noteq> m1" and "result \<noteq> m2"
  shows "(rows (mats s m1) \<noteq> rows (mats s m2) \<or> columns (mats s m1) \<noteq> columns (mats s m2) \<longrightarrow>
            matrix_sum s m1 m2 result = Some (- 1, s)) \<and>
         (rows (mats s m1) = rows (mats s m2) \<and> columns (mats s m1) = columns (mats s m2) \<and>
          mem (Suc (bound (rows (mats s m1)))) s \<longrightarrow>
            (\<exists>s'. matrix_sum s m1 m2 result = Some (0, s') \<and>
                  rows (mats s' result) = rows (mats s m1) \<and>
                  columns (mats s' result) = columns (mats s m1) \<and>
                  (\<forall>i < bound (rows (mats s m1)). \<forall>j < bound (columns (mats s m1)).
                     get_cell s' result (int i) (int j) = Some (cell s m1 i j + cell s m2 i j))))"
proof (intro conjI impI)
  assume "rows (mats s m1) \<noteq> rows (mats s m2) \<or> columns (mats s m1) \<noteq> columns (mats s m2)"
  then show "matrix_sum s m1 m2 result = Some (- 1, s)" by (simp add: matrix_sum_def)
next
  assume a: "rows (mats s m1) = rows (mats s m2) \<and> columns (mats s m1) = columns (mats s m2) \<and>
          mem (Suc (bound (rows (mats s m1)))) s"
  from matrix_sum_ok [OF assms] a
  obtain s' where s': "matrix_sum s m1 m2 result = Some (0, s')"
    "result_is s s' result (rows (mats s m1)) (columns (mats s m1))
       (\<lambda>(i, j). cell s m1 i j + cell s m2 i j)"
    by blast
  from s' show "\<exists>s'. matrix_sum s m1 m2 result = Some (0, s') \<and>
                  rows (mats s' result) = rows (mats s m1) \<and>
                  columns (mats s' result) = columns (mats s m1) \<and>
                  (\<forall>i < bound (rows (mats s m1)). \<forall>j < bound (columns (mats s m1)).
                     get_cell s' result (int i) (int j) = Some (cell s m1 i j + cell s m2 i j))"
    by (auto simp: result_is_def)
qed

theorem matrix_sum_spec_witness:
  "heap_ok ex_state \<and> is_matrix ex_state 1 \<and> is_matrix ex_state 2 \<and> is_matrix ex_state 3 \<and>
   rows (mats ex_state 1) \<noteq> rows (mats ex_state 2) \<and>
   matrix_sum ex_state 1 2 0 = Some (- 1, ex_state) \<and>
   rows (mats ex_state 1) = rows (mats ex_state 3) \<and>
   columns (mats ex_state 1) = columns (mats ex_state 3) \<and>
   mem (Suc (bound (rows (mats ex_state 1)))) ex_state \<and>
   map_option fst (matrix_sum ex_state 1 3 0) = Some 0 \<and>
   Option.bind (matrix_sum ex_state 1 3 0)
     (\<lambda>(rc, s'). Some (rows (mats s' 0), columns (mats s' 0), get_cell s' 0 0 0, get_cell s' 0 1 2))
     = Some (2, 3, Some 11, Some 66)"
proof -
  have d: "rows (mats ex_state 1) \<noteq> rows (mats ex_state 2)"
    "rows (mats ex_state 1) = rows (mats ex_state 3)"
    "columns (mats ex_state 1) = columns (mats ex_state 3)"
    "bound (rows (mats ex_state 1)) = 2" "bound (columns (mats ex_state 1)) = 3"
    by (simp_all add: ex_state_def ex_mats_def bound_def)
  have m: "mem (Suc (bound (rows (mats ex_state 1)))) ex_state"
    unfolding d(4) using ex_mem(1) by simp
  have c: "cell ex_state 1 0 0 + cell ex_state 3 0 0 = 11" "cell ex_state 1 1 2 + cell ex_state 3 1 2 = 66"
    by (simp_all add: cell_def get_cell_def load_ptr_def load_int_def load_def ex_state_def
        ex_mats_def ex_heap_def)
  note a = matrix_sum_spec [OF ex_heap_ok ex_is_matrix(1) ex_is_matrix(2), of 0]
  note b = matrix_sum_spec [OF ex_heap_ok ex_is_matrix(1) ex_is_matrix(3), of 0]
  from a d have 1: "matrix_sum ex_state 1 2 0 = Some (- 1, ex_state)" by simp
  from b d m obtain s' where s': "matrix_sum ex_state 1 3 0 = Some (0, s')"
    "rows (mats s' 0) = 2" "columns (mats s' 0) = 3"
    "\<forall>i < 2. \<forall>j < 3. get_cell s' 0 (int i) (int j) = Some (cell ex_state 1 i j + cell ex_state 3 i j)"
    by (auto simp: ex_state_def ex_mats_def)
  have g: "get_cell s' 0 0 0 = Some 11" "get_cell s' 0 1 2 = Some 66"
    using s'(4) [rule_format, of 0 0] s'(4) [rule_format, of 1 2] c by simp_all
  from ex_heap_ok ex_is_matrix d(1-3) m 1 s'(1-3) g show ?thesis by simp
qed

text \<open>
  C3. For matrices \<open>m1\<close> and \<open>m2\<close> and a result object that is neither of them:
  \<open>matrix_product\<close> returns \<open>-1\<close>, with nothing changed, when \<open>m1->columns\<close> is not
  \<open>m2->rows\<close>. When they are equal the only failure left is that of the allocation:
  with memory for the result the call returns 0, the result has the rows of \<open>m1\<close> and
  the columns of \<open>m2\<close>, and its cell \<open>[i][j]\<close> is the sum of \<open>m1[i][k] * m2[k][j]\<close> added
  in increasing order of \<open>k\<close>; without that memory it returns \<open>-1\<close>.
\<close>

theorem matrix_product_spec:
  assumes "heap_ok s" and "is_matrix s m1" and "is_matrix s m2"
    and "result \<noteq> m1" and "result \<noteq> m2"
  shows "(columns (mats s m1) \<noteq> rows (mats s m2) \<longrightarrow>
            matrix_product s m1 m2 result = Some (- 1, s)) \<and>
         (columns (mats s m1) = rows (mats s m2) \<and> mem (Suc (bound (rows (mats s m1)))) s \<longrightarrow>
            (\<exists>s'. matrix_product s m1 m2 result = Some (0, s') \<and>
                  rows (mats s' result) = rows (mats s m1) \<and>
                  columns (mats s' result) = columns (mats s m2) \<and>
                  (\<forall>i < bound (rows (mats s m1)). \<forall>j < bound (columns (mats s m2)).
                     get_cell s' result (int i) (int j)
                       = Some (foldl (\<lambda>acc k. acc + cell s m1 i k * cell s m2 k j) 0
                                 [0 ..< bound (columns (mats s m1))])))) \<and>
         (columns (mats s m1) = rows (mats s m2) \<and> \<not> mem (Suc (bound (rows (mats s m1)))) s \<longrightarrow>
            (\<exists>s'. matrix_product s m1 m2 result = Some (- 1, s')))"
proof (intro conjI impI)
  assume "columns (mats s m1) \<noteq> rows (mats s m2)"
  then show "matrix_product s m1 m2 result = Some (- 1, s)" by (simp add: matrix_product_def)
next
  assume a: "columns (mats s m1) = rows (mats s m2) \<and> mem (Suc (bound (rows (mats s m1)))) s"
  from matrix_product_ok [OF assms] a
  obtain s' where s': "matrix_product s m1 m2 result = Some (0, s')"
    "result_is s s' result (rows (mats s m1)) (columns (mats s m2))
       (\<lambda>(i, j). dot s m1 m2 i j (bound (columns (mats s m1))))"
    by blast
  from s' show "\<exists>s'. matrix_product s m1 m2 result = Some (0, s') \<and>
                  rows (mats s' result) = rows (mats s m1) \<and>
                  columns (mats s' result) = columns (mats s m2) \<and>
                  (\<forall>i < bound (rows (mats s m1)). \<forall>j < bound (columns (mats s m2)).
                     get_cell s' result (int i) (int j)
                       = Some (foldl (\<lambda>acc k. acc + cell s m1 i k * cell s m2 k j) 0
                                 [0 ..< bound (columns (mats s m1))]))"
    by (auto simp: result_is_def dot_def)
next
  assume a: "columns (mats s m1) = rows (mats s m2) \<and> \<not> mem (Suc (bound (rows (mats s m1)))) s"
  from matrix_allocate_no_mem [OF assms(1), of "rows (mats s m1)" result "columns (mats s m2)"] a
  obtain s1 where "matrix_allocate s result (rows (mats s m1)) (columns (mats s m2)) = Some (- 1, s1)"
    by blast
  with a show "\<exists>s'. matrix_product s m1 m2 result = Some (- 1, s')"
    by (simp add: matrix_product_def)
qed

lemma is_matrix_avail: "is_matrix (s\<lparr> avail := av \<rparr>) m = is_matrix s m"
proof -
  have l: "load (s\<lparr> avail := av \<rparr>) = load s" by (simp add: load_def fun_eq_iff)
  have li: "load_int (s\<lparr> avail := av \<rparr>) = load_int s" by (simp add: load_int_def l fun_eq_iff)
  have lp: "load_ptr (s\<lparr> avail := av \<rparr>) = load_ptr s" by (simp add: load_ptr_def l fun_eq_iff)
  have g: "get_cell (s\<lparr> avail := av \<rparr>) m i j = get_cell s m i j" for i j
    by (simp add: get_cell_def li lp cong: option.case_cong)
  have r: "the_rows (s\<lparr> avail := av \<rparr>) m = the_rows s m"
    by (simp add: the_rows_def)
  show ?thesis
    unfolding is_matrix_def allocated_def initialised_def g r
    by (simp cong: option.case_cong)
qed

theorem matrix_product_spec_witness:
  "heap_ok ex_state \<and> is_matrix ex_state 1 \<and> is_matrix ex_state 2 \<and> is_matrix ex_state 3 \<and>
   columns (mats ex_state 1) \<noteq> rows (mats ex_state 3) \<and>
   matrix_product ex_state 1 3 0 = Some (- 1, ex_state) \<and>
   columns (mats ex_state 1) = rows (mats ex_state 2) \<and>
   mem (Suc (bound (rows (mats ex_state 1)))) ex_state \<and>
   map_option fst (matrix_product ex_state 1 2 0) = Some 0 \<and>
   Option.bind (matrix_product ex_state 1 2 0)
     (\<lambda>(rc, s'). Some (rows (mats s' 0), columns (mats s' 0),
                       [[get_cell s' 0 0 0, get_cell s' 0 0 1], [get_cell s' 0 1 0, get_cell s' 0 1 1]]))
     = Some (2, 2, [[Some 58, Some 64], [Some 139, Some 154]]) \<and>
   \<not> mem (Suc (bound (rows (mats (ex_state\<lparr> avail := [True] \<rparr>) 1)))) (ex_state\<lparr> avail := [True] \<rparr>) \<and>
   map_option fst (matrix_product (ex_state\<lparr> avail := [True] \<rparr>) 1 2 0) = Some (- 1)"
proof -
  let ?u = "ex_state\<lparr> avail := [True] \<rparr>"
  have u: "heap_ok ?u" "is_matrix ?u 1" "is_matrix ?u 2"
    using ex_is_matrix by (simp_all add: heap_ok_ex_state is_matrix_avail del: One_nat_def)
  have du: "columns (mats ?u 1) = rows (mats ?u 2)"
    "\<not> mem (Suc (bound (rows (mats ?u 1)))) ?u"
    by (simp_all add: ex_state_def ex_mats_def bound_def mem_def)
  have d: "columns (mats ex_state 1) \<noteq> rows (mats ex_state 3)"
    "columns (mats ex_state 1) = rows (mats ex_state 2)"
    "bound (rows (mats ex_state 1)) = 2" "bound (columns (mats ex_state 1)) = 3"
    "bound (columns (mats ex_state 2)) = 2"
    by (simp_all add: ex_state_def ex_mats_def bound_def)
  have m: "mem (Suc (bound (rows (mats ex_state 1)))) ex_state"
    unfolding d(3) using ex_mem(1) by simp
  have c: "foldl (\<lambda>acc k. acc + cell ex_state 1 0 k * cell ex_state 2 k 0) 0 [0 ..< 3] = 58"
    "foldl (\<lambda>acc k. acc + cell ex_state 1 0 k * cell ex_state 2 k 1) 0 [0 ..< 3] = 64"
    "foldl (\<lambda>acc k. acc + cell ex_state 1 1 k * cell ex_state 2 k 0) 0 [0 ..< 3] = 139"
    "foldl (\<lambda>acc k. acc + cell ex_state 1 1 k * cell ex_state 2 k 1) 0 [0 ..< 3] = 154"
    by (simp_all add: upt_small cell_def get_cell_def load_ptr_def load_int_def load_def
        ex_state_def ex_mats_def ex_heap_def)
  have ne: "(0 :: mptr) \<noteq> 1" "(0 :: mptr) \<noteq> 2" "(0 :: mptr) \<noteq> 3" by simp_all
  note a = matrix_product_spec [OF ex_heap_ok ex_is_matrix(1) ex_is_matrix(3) ne(1) ne(3)]
  note b = matrix_product_spec [OF ex_heap_ok ex_is_matrix(1) ex_is_matrix(2) ne(1) ne(2)]
  from a d have 1: "matrix_product ex_state 1 3 0 = Some (- 1, ex_state)" by simp
  from b d(2) m obtain s' where s': "matrix_product ex_state 1 2 0 = Some (0, s')"
    "rows (mats s' 0) = rows (mats ex_state 1)" "columns (mats s' 0) = columns (mats ex_state 2)"
    "\<forall>i < bound (rows (mats ex_state 1)). \<forall>j < bound (columns (mats ex_state 2)).
       get_cell s' 0 (int i) (int j)
         = Some (foldl (\<lambda>acc k. acc + cell ex_state 1 i k * cell ex_state 2 k j) 0
                   [0 ..< bound (columns (mats ex_state 1))])"
    by blast
  have rc: "rows (mats s' 0) = 2" "columns (mats s' 0) = 2"
    using s'(2,3) by (simp_all add: ex_state_def ex_mats_def)
  note g = s'(4) [unfolded d(3,4,5), rule_format]
  have g': "get_cell s' 0 0 0 = Some 58" "get_cell s' 0 0 1 = Some 64"
    "get_cell s' 0 1 0 = Some 139" "get_cell s' 0 1 1 = Some 154"
    using g [of 0 0] g [of 0 1] g [of 1 0] g [of 1 1] c by simp_all
  from matrix_product_spec [OF u ne(1) ne(2)] du
  obtain u' where "matrix_product ?u 1 2 0 = Some (- 1, u')" by blast
  then have 2: "map_option fst (matrix_product ?u 1 2 0) = Some (- 1)" by simp
  from ex_heap_ok ex_is_matrix d(1,2) m 1 s'(1) rc g' du(2) 2 show ?thesis by simp
qed

section \<open>Identity\<close>

lemma matrix_init_n_ok:
  assumes "holds s m ps C"
  shows "\<exists>s'. matrix_init_n s m v = Some s' \<and>
           writing s m ps (known (\<lambda>_. v) {(i, j). i < bound (rows (mats s m)) \<and> j < bound (columns (mats s m))}) s'"
proof -
  let ?W = "\<lambda>D t. writing s m ps (known (\<lambda>_. v) D) t"
  have start: "?W {} s" using writing_start [OF assms] by (simp add: known_empty)
  have "\<exists>s'. for_loop 0 (bound (rows (mats s m)))
          (\<lambda>i. for_loop 0 (bound (columns (mats s m))) (\<lambda>j t. set_cell t m (int i) (int j) v)) s = Some s' \<and>
        ?W {(i, j) | i j. i < bound (rows (mats s m)) \<and> j < bound (columns (mats s m))} s'"
  proof (rule double_loop [where W = ?W and g = Pair, OF start])
    fix i j t D
    assume ij: "i < bound (rows (mats s m))" "j < bound (columns (mats s m))" and w: "?W D t"
    from writing_write [OF w ij, of v]
    show "\<exists>t'. set_cell t m (int i) (int j) v = Some t' \<and> ?W (insert (i, j) D) t'"
      by (simp add: known_insert [symmetric])
  qed
  then show ?thesis by (simp add: matrix_init_n_def)
qed

lemma diag_step: "k < n \<Longrightarrow> (diag n k)((k, k) := Some 1) = diag n (Suc k)"
  by (auto simp: diag_def fun_eq_iff less_Suc_eq)

lemma matrix_init_identity_ok:
  assumes "allocated s m" "rows (mats s m) = columns (mats s m)"
  shows "\<exists>s'. matrix_init_identity s m = Some (0, s') \<and>
           writing s m (the_rows s m) (diag (bound (rows (mats s m))) (bound (rows (mats s m)))) s'"
proof -
  let ?n = "bound (rows (mats s m))"
  let ?ps = "the_rows s m"
  from allocated_holds [OF assms(1)] obtain C where h: "holds s m ?ps C" by blast
  from matrix_init_n_ok [OF h, of 0] obtain s1 where s1: "matrix_init_n s m 0 = Some s1"
    "writing s m ?ps (known (\<lambda>_. 0) {(i, j). i < ?n \<and> j < bound (columns (mats s m))}) s1"
    by blast
  have "known (\<lambda>_. 0) {(i, j). i < ?n \<and> j < bound (columns (mats s m))} = diag ?n 0"
    using assms(2) by (auto simp: known_def diag_def fun_eq_iff)
  with s1(2) have w0: "writing s m ?ps (diag ?n 0) s1" by simp
  have m1: "mats s1 = mats s" using writing_fields [OF s1(2)] by simp
  have "\<exists>s'. for_loop 0 ?n (\<lambda>i t. set_cell t m (int i) (int i) 1) s1 = Some s' \<and>
          writing s m ?ps (diag ?n ?n) s'"
  proof (rule for_loop_inv [where I = "\<lambda>k t. writing s m ?ps (diag ?n k) t"])
    show "writing s m ?ps (diag ?n 0) s1" by (rule w0)
    show "0 \<le> ?n" by simp
    fix k t
    assume k: "k < ?n" and w: "writing s m ?ps (diag ?n k) t"
    have kc: "k < bound (columns (mats s m))" using k assms(2) by simp
    from writing_write [OF w k kc, of 1] diag_step [OF k]
    show "\<exists>t'. set_cell t m (int k) (int k) 1 = Some t' \<and> writing s m ?ps (diag ?n (Suc k)) t'"
      by simp
  qed
  then show ?thesis using s1(1) m1 assms(2) by (auto simp: matrix_init_identity_def matrix_init_zeros_def)
qed

text \<open>
  C6. On an allocated matrix \<open>matrix_init_identity\<close> returns \<open>-1\<close>, with nothing
  changed, when \<open>rows\<close> and \<open>columns\<close> differ, and 0 when they are equal: it succeeds
  exactly when the matrix is square. After a success the dimensions are as before,
  every cell on the diagonal is 1 and every other cell is 0.
\<close>

theorem matrix_init_identity_spec:
  assumes "allocated s m"
  shows "(rows (mats s m) \<noteq> columns (mats s m) \<longrightarrow> matrix_init_identity s m = Some (- 1, s)) \<and>
         (rows (mats s m) = columns (mats s m) \<longrightarrow>
            (\<exists>s'. matrix_init_identity s m = Some (0, s') \<and> mats s' = mats s \<and>
                  (\<forall>i < bound (rows (mats s m)). \<forall>j < bound (columns (mats s m)).
                     get_cell s' m (int i) (int j) = Some (if i = j then 1 else 0))))"
proof (intro conjI impI)
  assume "rows (mats s m) \<noteq> columns (mats s m)"
  then show "matrix_init_identity s m = Some (- 1, s)" by (simp add: matrix_init_identity_def)
next
  assume sq: "rows (mats s m) = columns (mats s m)"
  let ?n = "bound (rows (mats s m))"
  from matrix_init_identity_ok [OF assms sq] obtain s' where s':
    "matrix_init_identity s m = Some (0, s')" "writing s m (the_rows s m) (diag ?n ?n) s'"
    by blast
  have "get_cell s' m (int i) (int j) = Some (if i = j then 1 else 0)" if "i < ?n" "j < ?n" for i j
    by (rule writing_read [OF s'(2)]) (use that in \<open>simp add: diag_def\<close>)
  moreover have "mats s' = mats s" using writing_fields [OF s'(2)] by simp
  ultimately show "\<exists>s'. matrix_init_identity s m = Some (0, s') \<and> mats s' = mats s \<and>
                  (\<forall>i < bound (rows (mats s m)). \<forall>j < bound (columns (mats s m)).
                     get_cell s' m (int i) (int j) = Some (if i = j then 1 else 0))"
    using s'(1) sq by auto
qed

theorem matrix_init_identity_spec_witness:
  "allocated ex_state 1 \<and> rows (mats ex_state 1) \<noteq> columns (mats ex_state 1) \<and>
   matrix_init_identity ex_state 1 = Some (- 1, ex_state) \<and>
   allocated ex_state 4 \<and> rows (mats ex_state 4) = columns (mats ex_state 4) \<and>
   map_option fst (matrix_init_identity ex_state 4) = Some 0 \<and>
   Option.bind (matrix_init_identity ex_state 4)
     (\<lambda>(rc, s'). Some [[get_cell s' 4 0 0, get_cell s' 4 0 1], [get_cell s' 4 1 0, get_cell s' 4 1 1]])
     = Some [[Some 1, Some 0], [Some 0, Some 1]]"
proof -
  have al: "allocated ex_state 1" "allocated ex_state 4"
    unfolding allocated_def the_rows_def
    by (simp_all add: ex_state_def ex_mats_def ex_heap_def bound_def)
  have d: "rows (mats ex_state 1) \<noteq> columns (mats ex_state 1)"
    "rows (mats ex_state 4) = columns (mats ex_state 4)"
    "bound (rows (mats ex_state 4)) = 2" "bound (columns (mats ex_state 4)) = 2"
    by (simp_all add: ex_state_def ex_mats_def bound_def)
  from matrix_init_identity_spec [OF al(1)] d(1)
  have 1: "matrix_init_identity ex_state 1 = Some (- 1, ex_state)" by blast
  from matrix_init_identity_spec [OF al(2)] d(2)
  obtain s' where s': "matrix_init_identity ex_state 4 = Some (0, s')"
    "\<forall>i < bound (rows (mats ex_state 4)). \<forall>j < bound (columns (mats ex_state 4)).
       get_cell s' 4 (int i) (int j) = Some (if i = j then 1 else 0)"
    by blast
  note g = s'(2) [unfolded d(3,4), rule_format]
  have g': "get_cell s' 4 0 0 = Some 1" "get_cell s' 4 0 1 = Some 0"
    "get_cell s' 4 1 0 = Some 0" "get_cell s' 4 1 1 = Some 1"
    using g [of 0 0] g [of 0 1] g [of 1 0] g [of 1 1] by simp_all
  from al d(1,2) 1 s'(1) g' show ?thesis by simp
qed

section \<open>Transposing twice\<close>

lemma differ_cols_same:
  assumes "\<And>j. j0 \<le> j \<Longrightarrow> j < n \<Longrightarrow>
             \<exists>v. get_cell s m1 (int i) (int j) = Some v \<and> get_cell s m2 (int i) (int j) = Some v"
  shows "differ_cols s m1 m2 i j0 n = Some False"
  using assms
proof (induction "n - j0" arbitrary: j0)
  case 0
  then show ?case by (subst differ_cols.simps) simp
next
  case (Suc d)
  then have lt: "j0 < n" by simp
  from Suc.prems [of j0] lt obtain v where v: "get_cell s m1 (int i) (int j0) = Some v"
    "get_cell s m2 (int i) (int j0) = Some v" by auto
  have "differ_cols s m1 m2 i (Suc j0) n = Some False"
    using Suc.hyps(2) Suc.prems by (intro Suc.hyps(1)) auto
  then show ?case using lt v by (subst differ_cols.simps) simp
qed

lemma differ_rows_same:
  assumes "\<And>i j. i0 \<le> i \<Longrightarrow> i < n \<Longrightarrow> j < c \<Longrightarrow>
             \<exists>v. get_cell s m1 (int i) (int j) = Some v \<and> get_cell s m2 (int i) (int j) = Some v"
  shows "differ_rows s m1 m2 i0 n c = Some False"
  using assms
proof (induction "n - i0" arbitrary: i0)
  case 0
  then show ?case by (subst differ_rows.simps) simp
next
  case (Suc d)
  then have lt: "i0 < n" by simp
  have "differ_cols s m1 m2 i0 0 c = Some False"
    using Suc.prems [of i0] lt by (intro differ_cols_same) auto
  moreover have "differ_rows s m1 m2 (Suc i0) n c = Some False"
    using Suc.hyps(2) Suc.prems by (intro Suc.hyps(1)) auto
  ultimately show ?case using lt by (subst differ_rows.simps) simp
qed

lemma matrix_equal_same:
  assumes "rows (mats s m1) = rows (mats s m2)" "columns (mats s m1) = columns (mats s m2)"
    and "\<And>i j. i < bound (rows (mats s m1)) \<Longrightarrow> j < bound (columns (mats s m1)) \<Longrightarrow>
           \<exists>v. get_cell s m1 (int i) (int j) = Some v \<and> get_cell s m2 (int i) (int j) = Some v"
  shows "matrix_equal s m1 m2 = Some 1"
proof -
  have "differ_rows s m1 m2 0 (bound (rows (mats s m1))) (bound (columns (mats s m1))) = Some False"
    using assms(3) by (intro differ_rows_same) auto
  then show ?thesis using assms(1,2) by (simp add: matrix_equal_def)
qed

lemma mem_drop: "mem (a + b) s \<Longrightarrow> avail t = drop a (avail s) \<Longrightarrow> mem b t"
  by (auto simp: mem_def list_all_length)

lemma result_is_matrix: "result_is s s' r rr cc f \<Longrightarrow> is_matrix s' r"
  by (auto simp: result_is_def is_matrix_def initialised_iff)

text \<open>
  C5. For a matrix \<open>m\<close>, two result objects other than \<open>m\<close> and each other, and memory for
  both results: \<open>matrix_transposition\<close> of \<open>m\<close> into \<open>r1\<close> returns 0, that of \<open>r1\<close> into
  \<open>r2\<close> returns 0, and \<open>matrix_equal\<close> then returns 1 for \<open>r2\<close> and \<open>m\<close>.
\<close>

theorem transposition_twice:
  assumes "heap_ok s" "is_matrix s m" "r1 \<noteq> m" "r2 \<noteq> m" "r2 \<noteq> r1"
    and "mem (Suc (bound (columns (mats s m))) + Suc (bound (rows (mats s m)))) s"
  shows "\<exists>s1 s2. matrix_transposition s m r1 = Some (0, s1) \<and>
           matrix_transposition s1 r1 r2 = Some (0, s2) \<and>
           matrix_equal s2 r2 m = Some 1"
proof -
  let ?n = "rows (mats s m)" and ?c = "columns (mats s m)"
  from assms(2) have init: "initialised s m" by (simp add: is_matrix_def)
  have m1: "mem (Suc (bound ?c)) s" using assms(6) by (auto simp: mem_def list_all_length)
  from matrix_transposition_ok [OF assms(1,2,3) m1] obtain s1 where
    t1: "matrix_transposition s m r1 = Some (0, s1)"
    and r1: "result_is s s1 r1 ?c ?n (\<lambda>(j, i). cell s m i j)" by blast
  from r1 have d1: "rows (mats s1 r1) = ?c" "columns (mats s1 r1) = ?n"
    and c1: "\<And>j i. j < bound ?c \<Longrightarrow> i < bound ?n \<Longrightarrow> get_cell s1 r1 (int j) (int i) = Some (cell s m i j)"
    and f1: "frame s s1 r1" and ok1: "heap_ok s1"
    and av1: "avail s1 = drop (Suc (bound ?c)) (avail s)"
    by (auto simp: result_is_def)
  have im1: "is_matrix s1 r1" using r1 by (rule result_is_matrix)
  have m2: "mem (Suc (bound (columns (mats s1 r1)))) s1"
    unfolding d1 by (rule mem_drop [OF assms(6) av1])
  from matrix_transposition_ok [OF ok1 im1 assms(5) m2] obtain s2 where
    t2: "matrix_transposition s1 r1 r2 = Some (0, s2)"
    and r2: "result_is s1 s2 r2 ?n ?c (\<lambda>(j, i). cell s1 r1 i j)"
    unfolding d1 by blast
  from r2 have d2: "rows (mats s2 r2) = ?n" "columns (mats s2 r2) = ?c"
    and c2: "\<And>i j. i < bound ?n \<Longrightarrow> j < bound ?c \<Longrightarrow> get_cell s2 r2 (int i) (int j) = Some (cell s1 r1 j i)"
    and f2: "frame s1 s2 r2"
    by (auto simp: result_is_def)
  have ms: "mats s2 m = mats s m"
    using f1 f2 assms(3,4) by (simp add: frame_def)
  have "matrix_equal s2 r2 m = Some 1"
  proof (rule matrix_equal_same)
    show "rows (mats s2 r2) = rows (mats s2 m)" "columns (mats s2 r2) = columns (mats s2 m)"
      by (simp_all add: d2 ms)
    fix i j
    assume "i < bound (rows (mats s2 r2))" "j < bound (columns (mats s2 r2))"
    then have ij: "i < bound ?n" "j < bound ?c" by (simp_all add: d2)
    have "cell s1 r1 j i = cell s m i j" using c1 [OF ij(2,1)] by (simp add: cell_def)
    with c2 [OF ij] have a: "get_cell s2 r2 (int i) (int j) = Some (cell s m i j)" by simp
    have "get_cell s m (int i) (int j) = Some (cell s m i j)"
      by (rule initialised_cell [OF init ij])
    then have "get_cell s1 m (int i) (int j) = Some (cell s m i j)"
      by (rule get_cell_frame [OF f1 assms(3) [symmetric]])
    then have "get_cell s2 m (int i) (int j) = Some (cell s m i j)"
      by (rule get_cell_frame [OF f2 assms(4) [symmetric]])
    with a show "\<exists>v. get_cell s2 r2 (int i) (int j) = Some v \<and> get_cell s2 m (int i) (int j) = Some v"
      by simp
  qed
  with t1 t2 show ?thesis by blast
qed

theorem transposition_twice_witness:
  "heap_ok ex_state \<and> is_matrix ex_state 1 \<and> (0 :: mptr) \<noteq> 1 \<and> (5 :: mptr) \<noteq> 1 \<and> (5 :: mptr) \<noteq> 0 \<and>
   mem (Suc (bound (columns (mats ex_state 1))) + Suc (bound (rows (mats ex_state 1)))) ex_state \<and>
   Option.bind (matrix_transposition ex_state 1 0)
     (\<lambda>(rc, s1). Option.bind (matrix_transposition s1 0 5)
        (\<lambda>(rc', s2). map_option (\<lambda>e. (rc, rc', e)) (matrix_equal s2 5 1)))
     = Some (0, 0, 1)"
proof -
  have ne: "(0 :: mptr) \<noteq> 1" "(5 :: mptr) \<noteq> 1" "(5 :: mptr) \<noteq> 0" by simp_all
  have m: "mem (Suc (bound (columns (mats ex_state 1))) + Suc (bound (rows (mats ex_state 1)))) ex_state"
    by (simp add: mem_def ex_state_def ex_mats_def bound_def)
  from transposition_twice [OF ex_heap_ok ex_is_matrix(1) ne m]
  obtain s1 s2 where "matrix_transposition ex_state 1 0 = Some (0, s1)"
    "matrix_transposition s1 0 5 = Some (0, s2)" "matrix_equal s2 5 1 = Some 1"
    by blast
  then have "Option.bind (matrix_transposition ex_state 1 0)
     (\<lambda>(rc, s1). Option.bind (matrix_transposition s1 0 5)
        (\<lambda>(rc', s2). map_option (\<lambda>e. (rc, rc', e)) (matrix_equal s2 5 1)))
     = Some (0, 0, 1)"
    by simp
  with ex_heap_ok ex_is_matrix(1) ne m show ?thesis by (intro conjI)
qed

section \<open>The operands of the arithmetic functions\<close>

lemma frame_same_matrix: "frame s s' r \<Longrightarrow> m \<noteq> r \<Longrightarrow> same_matrix s s' m"
  unfolding same_matrix_def by (auto simp: frame_def intro: get_cell_frame)

lemma frame_refl: "frame s s r"
  by (simp add: frame_def)

lemma set_cell_touches:
  assumes "touches_only s r t" "set_cell t r i j v = Some t'"
  shows "touches_only s r t'"
proof -
  let ?c = "content (mats t r)"
  from assms(1) obtain ps where fr: "frame s t r" and cn: "heap s ?c = None"
    and ps: "heap t ?c = Some (map PtrV ps)" "?c \<notin> set ps" "\<forall>p \<in> set ps. heap s p = None"
    unfolding touches_only_def by blast
  from assms(2) obtain q where q: "load_ptr t ?c i = Some q" and st: "store t q j (IntV v) = Some t'"
    by (auto simp: set_cell_def split: option.splits)
  from q ps(1) have qs: "q \<in> set ps"
    by (auto simp: load_ptr_def load_def split: if_splits)
  from st obtain row where t': "t' = t\<lparr> heap := (heap t)(q := Some row) \<rparr>"
    by (auto simp: store_def split: option.splits if_splits)
  have qn: "heap s q = None" "q \<noteq> ?c" using qs ps(2,3) by auto
  have "frame s t' r" using fr qn(1) unfolding frame_def t' by auto
  moreover have "heap t' (content (mats t' r)) = Some (map PtrV ps)" using ps(1) qn(2) by (simp add: t')
  moreover have "content (mats t' r) = ?c" by (simp add: t')
  ultimately show ?thesis using cn ps(2,3) unfolding touches_only_def by auto
qed

lemma alloc_state_touches:
  assumes "heap_ok s" "0 \<le> sint rr"
  shows "touches_only s r (alloc_state s r rr cc (bound rr))"
proof -
  let ?t = "alloc_state s r rr cc (bound rr)"
  let ?ps = "[Suc (brk s) ..< Suc (brk s) + bound rr]"
  have c: "content (mats ?t r) = brk s" by (simp add: alloc_state_def)
  have "heap ?t (brk s) = Some (map PtrV ?ps)"
    using ptr_cells_bound [OF assms(2)] by (simp add: alloc_state_def)
  moreover have "brk s \<notin> set ?ps" by simp
  moreover have "\<forall>p \<in> set ?ps. heap s p = None" using assms(1) by (auto simp: heap_ok_def)
  moreover have "heap s (brk s) = None" using assms(1) by (auto simp: heap_ok_def)
  ultimately show ?thesis
    unfolding touches_only_def c using frame_alloc_state [OF assms(1), of r rr cc "bound rr"]
    by blast
qed

lemma frame_alloc_null: "frame s (alloc_null s r rr cc) r"
  by (simp add: frame_def alloc_null_def)

lemma frame_alloc_failed: "frame s (alloc_failed s r rr cc k) r"
  by (simp add: frame_def alloc_failed_def)

lemma fill_frame:
  assumes "heap_ok s"
    and "(case matrix_allocate s r rr cc of
            None \<Rightarrow> None
          | Some (rc, s1) \<Rightarrow>
              if rc \<noteq> 0 then Some (- 1, s1)
              else (case for_loop 0 (N s1) (\<lambda>i. for_loop 0 (M s1) (body i)) s1 of
                      None \<Rightarrow> None
                    | Some s2 \<Rightarrow> Some (0, s2))) = Some (rc', s')"
    and body: "\<And>i j t t'. touches_only s r t \<Longrightarrow> body i j t = Some t' \<Longrightarrow> touches_only s r t'"
  shows "frame s s' r"
proof -
  from matrix_allocate_cases [OF assms(1), of r rr cc]
  consider "matrix_allocate s r rr cc = Some (0, alloc_state s r rr cc (bound rr))" "0 \<le> sint rr"
    | "matrix_allocate s r rr cc = Some (- 1, alloc_null s r rr cc)"
    | k where "matrix_allocate s r rr cc = Some (- 1, alloc_failed s r rr cc k)"
    by blast
  then show ?thesis
  proof cases
    case 1
    let ?s1 = "alloc_state s r rr cc (bound rr)"
    from assms(2) 1(1) have l: "for_loop 0 (N ?s1) (\<lambda>i. for_loop 0 (M ?s1) (body i)) ?s1 = Some s'"
      by (simp split: option.splits)
    have st: "touches_only s r ?s1" by (rule alloc_state_touches [OF assms(1) 1(2)])
    have "touches_only s r s'"
    proof (rule for_loop_pres [where P = "touches_only s r", OF l st])
      fix i t t'
      assume t: "touches_only s r t" and b: "for_loop 0 (M ?s1) (body i) t = Some t'"
      show "touches_only s r t'"
        by (rule for_loop_pres [where P = "touches_only s r", OF b t]) (rule body)
    qed
    then show ?thesis by (simp add: touches_only_def)
  next
    case 2
    with assms(2) show ?thesis by (auto simp: frame_alloc_null)
  next
    case 3
    with assms(2) show ?thesis by (auto simp: frame_alloc_failed)
  qed
qed

lemma sum_cell_touches:
  "touches_only s r t \<Longrightarrow> sum_cell m1 m2 r i j t = Some t' \<Longrightarrow> touches_only s r t'"
  by (auto simp: sum_cell_def split: option.splits intro: set_cell_touches)

lemma scalar_cell_touches:
  "touches_only s r t \<Longrightarrow> scalar_cell m k r i j t = Some t' \<Longrightarrow> touches_only s r t'"
  by (auto simp: scalar_cell_def split: option.splits intro: set_cell_touches)

lemma transpose_cell_touches:
  "touches_only s r t \<Longrightarrow> transpose_cell m r i j t = Some t' \<Longrightarrow> touches_only s r t'"
  by (auto simp: transpose_cell_def split: option.splits intro: set_cell_touches)

lemma product_term_touches:
  "touches_only s r t \<Longrightarrow> product_term m1 m2 r i j k t = Some t' \<Longrightarrow> touches_only s r t'"
  by (auto simp: product_term_def split: option.splits intro: set_cell_touches)

lemma product_cell_touches:
  assumes "touches_only s r t" "product_cell m1 m2 r i j t = Some t'"
  shows "touches_only s r t'"
proof -
  from assms(2) obtain t1 where t1: "set_cell t r (int i) (int j) 0 = Some t1"
    and l: "for_loop 0 (bound (columns (mats t1 m1))) (product_term m1 m2 r i j) t1 = Some t'"
    by (auto simp: product_cell_def split: option.splits)
  have "touches_only s r t1" by (rule set_cell_touches [OF assms(1) t1])
  then show ?thesis
    by (rule for_loop_pres [where P = "touches_only s r", OF l]) (rule product_term_touches)
qed

lemma matrix_sum_frame:
  assumes "heap_ok s" "matrix_sum s m1 m2 r = Some (rc, s')"
  shows "frame s s' r"
proof (cases "rows (mats s m1) \<noteq> rows (mats s m2) \<or> columns (mats s m1) \<noteq> columns (mats s m2)")
  case True
  with assms(2) show ?thesis by (auto simp: matrix_sum_def frame_refl)
next
  case False
  show ?thesis
  proof (rule fill_frame [OF assms(1), where body = "sum_cell m1 m2 r"
        and N = "\<lambda>s1. bound (rows (mats s1 m1))" and M = "\<lambda>s1. bound (columns (mats s1 m1))"])
    show "(case matrix_allocate s r (rows (mats s m1)) (columns (mats s m1)) of
            None \<Rightarrow> None
          | Some (rc, s1) \<Rightarrow>
              if rc \<noteq> 0 then Some (- 1, s1)
              else (case for_loop 0 (bound (rows (mats s1 m1)))
                           (\<lambda>i. for_loop 0 (bound (columns (mats s1 m1))) (sum_cell m1 m2 r i)) s1 of
                      None \<Rightarrow> None
                    | Some s2 \<Rightarrow> Some (0, s2))) = Some (rc, s')"
      using assms(2) False by (simp add: matrix_sum_def)
  qed (rule sum_cell_touches)
qed

lemma matrix_scalar_product_frame:
  assumes "heap_ok s" "matrix_scalar_product s m k r = Some (rc, s')"
  shows "frame s s' r"
  by (rule fill_frame [OF assms(1), where body = "scalar_cell m k r"
        and N = "\<lambda>s1. bound (rows (mats s1 m))" and M = "\<lambda>s1. bound (columns (mats s1 m))"])
    (use assms(2) in \<open>simp add: matrix_scalar_product_def\<close>, rule scalar_cell_touches)

lemma matrix_transposition_frame:
  assumes "heap_ok s" "matrix_transposition s m r = Some (rc, s')"
  shows "frame s s' r"
  by (rule fill_frame [OF assms(1), where body = "transpose_cell m r"
        and N = "\<lambda>s1. bound (rows (mats s1 m))" and M = "\<lambda>s1. bound (columns (mats s1 m))"])
    (use assms(2) in \<open>simp add: matrix_transposition_def\<close>, rule transpose_cell_touches)

lemma matrix_product_frame:
  assumes "heap_ok s" "matrix_product s m1 m2 r = Some (rc, s')"
  shows "frame s s' r"
proof (cases "columns (mats s m1) \<noteq> rows (mats s m2)")
  case True
  with assms(2) show ?thesis by (auto simp: matrix_product_def frame_refl)
next
  case False
  show ?thesis
    by (rule fill_frame [OF assms(1), where body = "product_cell m1 m2 r"
        and N = "\<lambda>s1. bound (rows (mats s1 m1))" and M = "\<lambda>s1. bound (columns (mats s1 m2))"])
      (use assms(2) False in \<open>simp add: matrix_product_def\<close>, rule product_cell_touches)
qed

text \<open>
  C9. Whatever \<open>matrix_sum\<close>, \<open>matrix_scalar_product\<close>, \<open>matrix_transposition\<close> and
  \<open>matrix_product\<close> return, with a result object that is none of the operands: every
  operand is as before the call, the object (its dimensions and its pointer) and every
  cell of it; and the call has changed no \<open>matrix_t\<close> object but the result and no block
  that was live before it, so all it wrote is in the blocks it allocated.
\<close>

theorem operands_unmodified:
  assumes "heap_ok s"
  shows "(result \<noteq> m1 \<and> result \<noteq> m2 \<and> matrix_sum s m1 m2 result = Some (rc, s') \<longrightarrow>
            same_matrix s s' m1 \<and> same_matrix s s' m2 \<and> frame s s' result) \<and>
         (result \<noteq> m \<and> matrix_scalar_product s m k result = Some (rc, s') \<longrightarrow>
            same_matrix s s' m \<and> frame s s' result) \<and>
         (result \<noteq> m \<and> matrix_transposition s m result = Some (rc, s') \<longrightarrow>
            same_matrix s s' m \<and> frame s s' result) \<and>
         (result \<noteq> m1 \<and> result \<noteq> m2 \<and> matrix_product s m1 m2 result = Some (rc, s') \<longrightarrow>
            same_matrix s s' m1 \<and> same_matrix s s' m2 \<and> frame s s' result)"
proof (intro conjI impI)
  assume a: "result \<noteq> m1 \<and> result \<noteq> m2 \<and> matrix_sum s m1 m2 result = Some (rc, s')"
  then have f: "frame s s' result" using matrix_sum_frame [OF assms] by blast
  then show "frame s s' result" .
  from f a show "same_matrix s s' m1" "same_matrix s s' m2" by (auto intro: frame_same_matrix)
next
  assume a: "result \<noteq> m \<and> matrix_scalar_product s m k result = Some (rc, s')"
  then have f: "frame s s' result" using matrix_scalar_product_frame [OF assms] by blast
  then show "frame s s' result" .
  from f a show "same_matrix s s' m" by (auto intro: frame_same_matrix)
next
  assume a: "result \<noteq> m \<and> matrix_transposition s m result = Some (rc, s')"
  then have f: "frame s s' result" using matrix_transposition_frame [OF assms] by blast
  then show "frame s s' result" .
  from f a show "same_matrix s s' m" by (auto intro: frame_same_matrix)
next
  assume a: "result \<noteq> m1 \<and> result \<noteq> m2 \<and> matrix_product s m1 m2 result = Some (rc, s')"
  then have f: "frame s s' result" using matrix_product_frame [OF assms] by blast
  then show "frame s s' result" .
  from f a show "same_matrix s s' m1" "same_matrix s s' m2" by (auto intro: frame_same_matrix)
qed

theorem operands_unmodified_witness:
  "heap_ok ex_state \<and> (0 :: mptr) \<noteq> 1 \<and> (0 :: mptr) \<noteq> 2 \<and> (0 :: mptr) \<noteq> 3 \<and>
   matrix_sum ex_state 1 3 0 = Some (0, snd (the (matrix_sum ex_state 1 3 0))) \<and>
   same_matrix ex_state (snd (the (matrix_sum ex_state 1 3 0))) 1 \<and>
   same_matrix ex_state (snd (the (matrix_sum ex_state 1 3 0))) 3 \<and>
   frame ex_state (snd (the (matrix_sum ex_state 1 3 0))) 0 \<and>
   get_cell (snd (the (matrix_sum ex_state 1 3 0))) 1 1 2 = Some 6 \<and>
   matrix_scalar_product ex_state 1 2 0 = Some (0, snd (the (matrix_scalar_product ex_state 1 2 0))) \<and>
   same_matrix ex_state (snd (the (matrix_scalar_product ex_state 1 2 0))) 1 \<and>
   frame ex_state (snd (the (matrix_scalar_product ex_state 1 2 0))) 0 \<and>
   matrix_transposition ex_state 1 0 = Some (0, snd (the (matrix_transposition ex_state 1 0))) \<and>
   same_matrix ex_state (snd (the (matrix_transposition ex_state 1 0))) 1 \<and>
   frame ex_state (snd (the (matrix_transposition ex_state 1 0))) 0 \<and>
   matrix_product ex_state 1 2 0 = Some (0, snd (the (matrix_product ex_state 1 2 0))) \<and>
   same_matrix ex_state (snd (the (matrix_product ex_state 1 2 0))) 1 \<and>
   same_matrix ex_state (snd (the (matrix_product ex_state 1 2 0))) 2 \<and>
   frame ex_state (snd (the (matrix_product ex_state 1 2 0))) 0"
proof -
  have ne: "(0 :: mptr) \<noteq> 1" "(0 :: mptr) \<noteq> 2" "(0 :: mptr) \<noteq> 3" by simp_all
  have d: "rows (mats ex_state 1) = rows (mats ex_state 3)"
    "columns (mats ex_state 1) = columns (mats ex_state 3)"
    "columns (mats ex_state 1) = rows (mats ex_state 2)"
    by (simp_all add: ex_state_def ex_mats_def)
  have m: "mem (Suc (bound (rows (mats ex_state 1)))) ex_state"
    "mem (Suc (bound (columns (mats ex_state 1)))) ex_state"
    by (simp_all add: mem_def ex_state_def ex_mats_def bound_def)
  let ?a = "snd (the (matrix_sum ex_state 1 3 0))"
  let ?b = "snd (the (matrix_scalar_product ex_state 1 2 0))"
  let ?c = "snd (the (matrix_transposition ex_state 1 0))"
  let ?d = "snd (the (matrix_product ex_state 1 2 0))"
  have a: "matrix_sum ex_state 1 3 0 = Some (0, ?a)"
    using matrix_sum_ok [OF ex_heap_ok ex_is_matrix(1) ex_is_matrix(3) ne(1) ne(3) d(1) d(2) m(1)]
    by auto
  have b: "matrix_scalar_product ex_state 1 2 0 = Some (0, ?b)"
    using matrix_scalar_product_ok [OF ex_heap_ok ex_is_matrix(1) ne(1) m(1), of 2] by auto
  have c: "matrix_transposition ex_state 1 0 = Some (0, ?c)"
    using matrix_transposition_ok [OF ex_heap_ok ex_is_matrix(1) ne(1) m(2)] by auto
  have e: "matrix_product ex_state 1 2 0 = Some (0, ?d)"
    using matrix_product_ok [OF ex_heap_ok ex_is_matrix(1) ex_is_matrix(2) ne(1) ne(2) d(3) m(1)]
    by auto
  note th = operands_unmodified [OF ex_heap_ok]
  from th [where result = 0 and ?m1.0 = 1 and ?m2.0 = 3 and rc = 0 and s' = ?a] ne a
  have 1: "same_matrix ex_state ?a 1" "same_matrix ex_state ?a 3" "frame ex_state ?a 0"
    by blast+
  from th [where result = 0 and m = 1 and k = 2 and rc = 0 and s' = ?b] ne b
  have 2: "same_matrix ex_state ?b 1" "frame ex_state ?b 0" by blast+
  from th [where result = 0 and m = 1 and rc = 0 and s' = ?c] ne c
  have 3: "same_matrix ex_state ?c 1" "frame ex_state ?c 0" by blast+
  from th [where result = 0 and ?m1.0 = 1 and ?m2.0 = 2 and rc = 0 and s' = ?d] ne e
  have 4: "same_matrix ex_state ?d 1" "same_matrix ex_state ?d 2" "frame ex_state ?d 0"
    by blast+
  have "get_cell ex_state 1 1 2 = Some 6"
    by (simp add: get_cell_def load_ptr_def load_int_def load_def ex_state_def ex_mats_def ex_heap_def)
  with 1(1) have g: "get_cell ?a 1 1 2 = Some 6" by (simp add: same_matrix_def)
  from ex_heap_ok ne a 1 g b 2 c 3 e 4 show ?thesis by (intro conjI)
qed

end
